theory Spec2Isabelle
  imports Main "HOL-Library.Word"
begin

section \<open>Strings\<close>

text \<open>
  A JavaScript string is a sequence of UTF-16 code units. The transcoder of
  \<^verbatim>\<open>tree-note.ts\<close> only concatenates strings, compares code units and measures lengths,
  so a string is a list of 16-bit words. \<open>lit\<close> turns an ASCII literal of the source into
  such a list.
\<close>

type_synonym code_unit = "16 word"
type_synonym jsstring = "code_unit list"

definition lit :: "string \<Rightarrow> jsstring" where
  "lit s = map of_char s"

definition star :: code_unit where "star = 42"
definition tick :: code_unit where "tick = 96"
definition dash :: code_unit where "dash = 45"
definition blank :: code_unit where "blank = 32"
definition newline :: code_unit where "newline = 10"

text \<open>\<^verbatim>\<open>String.prototype.repeat\<close> for a count that is a non-negative integer.\<close>

definition repeat :: "jsstring \<Rightarrow> nat \<Rightarrow> jsstring" where
  "repeat s n = concat (replicate n s)"

text \<open>\<^verbatim>\<open>Array.prototype.join\<close>: the elements with the separator between neighbours.\<close>

fun join :: "jsstring \<Rightarrow> jsstring list \<Rightarrow> jsstring" where
  "join sep [] = []"
| "join sep [x] = x"
| "join sep (x # y # ys) = x @ sep @ join sep (y # ys)"

section \<open>The document as JSON\<close>

text \<open>
  The transcoder of \<^verbatim>\<open>tree-note.ts\<close> reads and writes the JSON of the document, in which
  a key may be missing. A document is the list of its nodes (\<^verbatim>\<open>json.content\<close>). A node has
  the keys \<^verbatim>\<open>attrs\<close> and \<^verbatim>\<open>content\<close>, each present or not; \<^verbatim>\<open>attrs\<close> is an object that has a
  \<^verbatim>\<open>level\<close> or has none. An inline child is a text, with its text and with a \<^verbatim>\<open>marks\<close> array
  or without one, or something else (the hard break of the starter kit). A mark is
  known by its type; \<open>Other_mark n\<close> is a mark whose type \<open>n\<close> is none of bold, italic,
  code and link (the strike mark of the starter kit, for one). The schema of the editor
  has one block type (the outline node: every other block of the starter kit is switched
  off), so the test \<^verbatim>\<open>node.type === 'outlineNode'\<close> holds of every node. A level in the
  JSON is a natural number: the transcoder only counts with it (\<^verbatim>\<open>repeat\<close> raises on a
  negative count).
\<close>

datatype mark = Bold | Italic | Code | Link jsstring | Other_mark string

datatype json_inline = Json_text jsstring "mark list option" | Json_other

type_synonym attrs = "nat option"

record json_node =
  node_attrs :: "attrs option"
  node_content :: "json_inline list option"

type_synonym json_doc = "json_node list"

text \<open>The node \<^verbatim>\<open>{ type: 'outlineNode', attrs: { level }, content }\<close> with both keys.\<close>

definition outlineNode :: "nat \<Rightarrow> json_inline list \<Rightarrow> json_node" where
  "outlineNode l c = \<lparr>node_attrs = Some (Some l), node_content = Some c\<rparr>"

section \<open>Markdown export\<close>

text \<open>The body of the loop over \<^verbatim>\<open>child.marks\<close> in \<^verbatim>\<open>nodeToText\<close>: one mark wraps \<open>t\<close>.\<close>

fun wrap :: "jsstring \<Rightarrow> mark \<Rightarrow> jsstring" where
  "wrap t Bold = lit ''**'' @ t @ lit ''**''"
| "wrap t Italic = lit ''*'' @ t @ lit ''*''"
| "wrap t Code = lit ''`'' @ t @ lit ''`''"
| "wrap t (Link h) = t"
| "wrap t (Other_mark n) = t"

text \<open>
  One turn of the loop over \<^verbatim>\<open>node.content\<close>: only a text child adds to \<open>text\<close>, and its
  marks wrap it when it has the key \<^verbatim>\<open>marks\<close> (\<^verbatim>\<open>if (child.marks)\<close>).
\<close>

fun add_child :: "jsstring \<Rightarrow> json_inline \<Rightarrow> jsstring" where
  "add_child text (Json_text t None) = text @ t"
| "add_child text (Json_text t (Some ms)) = text @ foldl wrap t ms"
| "add_child text Json_other = text"

text \<open>\<^verbatim>\<open>if (!node.content) return ''\<close>, then the loop.\<close>

definition nodeToText :: "json_node \<Rightarrow> jsstring" where
  "nodeToText node =
     (case node_content node of None \<Rightarrow> [] | Some c \<Rightarrow> foldl add_child [] c)"

text \<open>\<^verbatim>\<open>node.attrs?.level || 0\<close>\<close>

definition level_of :: "json_node \<Rightarrow> nat" where
  "level_of node =
     (case node_attrs node of
        None \<Rightarrow> 0
      | Some None \<Rightarrow> 0
      | Some (Some l) \<Rightarrow> l)"

text \<open>One turn of the loop of \<^verbatim>\<open>toMarkdown\<close>: \<^verbatim>\<open>lines.push(`${indent}- ${text}`)\<close>.\<close>

definition push_line :: "jsstring list \<Rightarrow> json_node \<Rightarrow> jsstring list" where
  "push_line lines node =
     (let level = level_of node;
          indent = repeat (lit ''  '') level;
          text = nodeToText node
      in lines @ [indent @ lit ''- '' @ text])"

definition toMarkdown :: "json_doc \<Rightarrow> jsstring" where
  "toMarkdown d = join [newline] (foldl push_line [] d)"

section \<open>Regular expressions of the import\<close>

text \<open>
  The import uses two regular expressions, \<^verbatim>\<open>/^(\s*)-\s+(.*)$/\<close> and
  \<^verbatim>\<open>/(\*\*[^*]+\*\*|\*[^*]+\*|`[^`]+`)/\<close>. Both are alternatives of sequences whose
  items are a character class taken once, or repeated greedily (\<^verbatim>\<open>*\<close>, \<^verbatim>\<open>+\<close>). The matcher
  below is the backtracking matcher of ECMAScript restricted to such items: a greedy
  repetition first takes as many code units as the class allows and gives them back one
  by one while the rest of the sequence fails. The character classes are those of
  ECMAScript without the \<^verbatim>\<open>s\<close> and \<^verbatim>\<open>u\<close> flags.
\<close>

definition isLineTerminator :: "code_unit \<Rightarrow> bool" where
  "isLineTerminator c = (c = 0x000A \<or> c = 0x000D \<or> c = 0x2028 \<or> c = 0x2029)"

definition isSpace :: "code_unit \<Rightarrow> bool" where
  "isSpace c =
     (c = 0x0009 \<or> c = 0x000B \<or> c = 0x000C \<or> c = 0x0020 \<or> c = 0x00A0 \<or> c = 0xFEFF
      \<or> c = 0x1680 \<or> (0x2000 \<le> c \<and> c \<le> 0x200A)
      \<or> c = 0x202F \<or> c = 0x205F \<or> c = 0x3000 \<or> isLineTerminator c)"

definition isDot :: "code_unit \<Rightarrow> bool" where
  "isDot c = (\<not> isLineTerminator c)"

datatype item = One "code_unit \<Rightarrow> bool" | Star "code_unit \<Rightarrow> bool" | Plus "code_unit \<Rightarrow> bool"

text \<open>\<open>greedy lo hi f\<close>: the first of \<open>f hi\<close>, \<open>f (hi - 1)\<close>, ..., \<open>f lo\<close> that succeeds.\<close>

fun greedy :: "nat \<Rightarrow> nat \<Rightarrow> (nat \<Rightarrow> 'a option) \<Rightarrow> 'a option" where
  "greedy lo 0 f = (if lo = 0 then f 0 else None)"
| "greedy lo (Suc n) f =
     (if Suc n < lo then None
      else case f (Suc n) of Some r \<Rightarrow> Some r | None \<Rightarrow> greedy lo n f)"

text \<open>
  \<open>match_seq items fin s\<close> matches the items at the start of \<open>s\<close>; \<open>fin\<close> is the test after
  the last item (\<^verbatim>\<open>$\<close>, or none). It returns the text each item took and the rest of \<open>s\<close>.
\<close>

fun match_seq :: "item list \<Rightarrow> (jsstring \<Rightarrow> bool) \<Rightarrow> jsstring \<Rightarrow> (jsstring list \<times> jsstring) option" where
  "match_seq [] fin s = (if fin s then Some ([], s) else None)"
| "match_seq (One p # r) fin s =
     (case s of
        [] \<Rightarrow> None
      | c # s' \<Rightarrow>
          if p c then map_option (\<lambda>(gs, rest). ([c] # gs, rest)) (match_seq r fin s')
          else None)"
| "match_seq (Star p # r) fin s =
     greedy 0 (length (takeWhile p s))
       (\<lambda>n. map_option (\<lambda>(gs, rest). (take n s # gs, rest)) (match_seq r fin (drop n s)))"
| "match_seq (Plus p # r) fin s =
     greedy 1 (length (takeWhile p s))
       (\<lambda>n. map_option (\<lambda>(gs, rest). (take n s # gs, rest)) (match_seq r fin (drop n s)))"

text \<open>Alternatives are tried in the order written; the result is the matched text and the rest.\<close>

fun match_alt :: "item list list \<Rightarrow> jsstring \<Rightarrow> (jsstring \<times> jsstring) option" where
  "match_alt [] s = None"
| "match_alt (a # as) s =
     (case match_seq a (\<lambda>_. True) s of
        Some (gs, rest) \<Rightarrow> Some (concat gs, rest)
      | None \<Rightarrow> match_alt as s)"

text \<open>\<^verbatim>\<open>/^(\s*)-\s+(.*)$/\<close>, and \<^verbatim>\<open>line.match\<close> with it: \<^verbatim>\<open>^\<close> allows a match at index 0 only,
  \<^verbatim>\<open>$\<close> asks for the end of the string; the result is \<^verbatim>\<open>(match[1], match[2])\<close>.\<close>

definition line_regex :: "item list" where
  "line_regex = [Star isSpace, One (\<lambda>c. c = dash), Plus isSpace, Star isDot]"

definition match_line :: "jsstring \<Rightarrow> (jsstring \<times> jsstring) option" where
  "match_line line =
     (case match_seq line_regex (\<lambda>s. s = []) line of
        None \<Rightarrow> None
      | Some (gs, rest) \<Rightarrow> Some (gs ! 0, gs ! 3))"

text \<open>\<^verbatim>\<open>/(\*\*[^*]+\*\*|\*[^*]+\*|`[^`]+`)/\<close>\<close>

definition mark_regex :: "item list list" where
  "mark_regex =
     [[One (\<lambda>c. c = star), One (\<lambda>c. c = star), Plus (\<lambda>c. c \<noteq> star),
       One (\<lambda>c. c = star), One (\<lambda>c. c = star)],
      [One (\<lambda>c. c = star), Plus (\<lambda>c. c \<noteq> star), One (\<lambda>c. c = star)],
      [One (\<lambda>c. c = tick), Plus (\<lambda>c. c \<noteq> tick), One (\<lambda>c. c = tick)]]"

section \<open>Markdown import\<close>

text \<open>\<^verbatim>\<open>markdown.split('\n')\<close>: \<open>cur\<close> is the piece being read.\<close>

fun split_on :: "code_unit \<Rightarrow> jsstring \<Rightarrow> jsstring \<Rightarrow> jsstring list" where
  "split_on sep cur [] = [cur]"
| "split_on sep cur (c # cs) =
     (if c = sep then cur # split_on sep [] cs else split_on sep (cur @ [c]) cs)"

text \<open>
  \<^verbatim>\<open>text.split(/(...)/)\<close> for a non-empty \<open>text\<close>, as \<^verbatim>\<open>RegExp.prototype[Symbol.split]\<close>
  runs it: \<open>pend\<close> is the text since the last match; at each index the expression is
  tried at that index only; after a match the text before it and the capture (the whole
  match, since the group encloses the expression) are appended and the scan goes on
  behind the match; without one the scan moves on by one code unit. Every alternative
  takes three code units at least, so a match never ends where the last one ended; the
  test on the lengths below always holds (lemma \<open>match_alt_mark_regex\<close>).
\<close>

function split_loop :: "jsstring \<Rightarrow> jsstring \<Rightarrow> jsstring list" where
  "split_loop pend [] = [pend]"
| "split_loop pend (c # cs) =
     (case match_alt mark_regex (c # cs) of
        None \<Rightarrow> split_loop (pend @ [c]) cs
      | Some (m, rest) \<Rightarrow>
          if length rest < length (c # cs) then pend # m # split_loop [] rest
          else split_loop (pend @ [c]) cs)"
  by pat_completeness auto
termination
  by (relation "measure (\<lambda>(pend, s). length s)") auto

definition startsWith :: "jsstring \<Rightarrow> jsstring \<Rightarrow> bool" where
  "startsWith s p = (take (length p) s = p)"

definition endsWith :: "jsstring \<Rightarrow> jsstring \<Rightarrow> bool" where
  "endsWith s p = (length p \<le> length s \<and> drop (length s - length p) s = p)"

text \<open>\<^verbatim>\<open>s.slice(a, -b)\<close>: from index \<open>a\<close> up to \<open>b\<close> before the end, empty when they cross.\<close>

definition slice :: "jsstring \<Rightarrow> nat \<Rightarrow> nat \<Rightarrow> jsstring" where
  "slice s a b = take (length s - b - a) (drop a s)"

text \<open>
  One turn of the loop over the segments in \<^verbatim>\<open>parseTextWithMarks\<close>: a marked segment is
  written with a \<^verbatim>\<open>marks\<close> array of one mark, any other without the key.
\<close>

definition add_segment :: "json_inline list \<Rightarrow> jsstring \<Rightarrow> json_inline list" where
  "add_segment runs segment =
     (if segment = [] then runs
      else if startsWith segment (lit ''**'') \<and> endsWith segment (lit ''**'')
        then runs @ [Json_text (slice segment 2 2) (Some [Bold])]
      else if startsWith segment (lit ''*'') \<and> endsWith segment (lit ''*'')
        then runs @ [Json_text (slice segment 1 1) (Some [Italic])]
      else if startsWith segment (lit ''`'') \<and> endsWith segment (lit ''`'')
        then runs @ [Json_text (slice segment 1 1) (Some [Code])]
      else runs @ [Json_text segment None])"

definition parseTextWithMarks :: "jsstring \<Rightarrow> json_inline list" where
  "parseTextWithMarks text =
     (if text = [] then []
      else let segments = split_loop [] text in foldl add_segment [] segments)"

text \<open>One turn of the loop over the lines in \<^verbatim>\<open>fromMarkdown\<close>.\<close>

definition add_line :: "json_doc \<Rightarrow> jsstring \<Rightarrow> json_doc" where
  "add_line nodes line =
     (case match_line line of
        None \<Rightarrow> nodes
      | Some (indent, text) \<Rightarrow>
          let level = length indent div 2
          in nodes @ [outlineNode level (parseTextWithMarks text)])"

definition fromMarkdown :: "jsstring \<Rightarrow> json_doc" where
  "fromMarkdown markdown =
     (let lines = split_on newline [] markdown;
          nodes = foldl add_line [] lines
      in if length nodes > 0 then nodes else [outlineNode 0 []])"

section \<open>The editor state\<close>

text \<open>
  The commands of \<^verbatim>\<open>OutlineNode.ts\<close> run on the state of the host editing engine
  (ProseMirror), which holds the document as nodes, not as JSON: a node always has its
  attribute \<^verbatim>\<open>level\<close> (0 by default), its content, and each text its marks. The level is
  the number the commands compute with: an integer, so that a level below 0 can be
  written down and the lower bound of the levels is a property of the commands and
  not of the type. \<^verbatim>\<open>$from.parent.attrs.level || 0\<close> is the level itself.

  The state is the document and the selection, a text selection whose ends
  \<^verbatim>\<open>from \<le> to\<close> are positions counted in the document as the engine counts them. A node
  takes one position for its opening, the size of its content, and one for its closing;
  a text takes one position for each code unit, any other inline child one. Position \<open>0\<close>
  is before the first node.
\<close>

datatype inline = Text jsstring "mark list" | Non_text

record outline_node =
  level :: int
  content :: "inline list"

type_synonym document = "outline_node list"

fun inline_size :: "inline \<Rightarrow> nat" where
  "inline_size (Text t ms) = length t"
| "inline_size Non_text = 1"

definition content_size :: "inline list \<Rightarrow> nat" where
  "content_size c = sum_list (map inline_size c)"

definition node_size :: "outline_node \<Rightarrow> nat" where
  "node_size n = content_size (content n) + 2"

record editor_state =
  doc :: document
  sel_from :: nat
  sel_to :: nat

text \<open>
  \<open>resolve d p\<close> is the engine's \<^verbatim>\<open>doc.resolve(p)\<close> as far as the commands read it: the index
  of the outline node that holds the position together with \<^verbatim>\<open>parentOffset\<close>, or \<open>None\<close>
  when the position lies between nodes, where \<^verbatim>\<open>parent\<close> is the document itself and
  \<^verbatim>\<open>$from.parent.type.name !== this.name\<close>.
\<close>

fun resolve :: "document \<Rightarrow> nat \<Rightarrow> (nat \<times> nat) option" where
  "resolve [] p = None"
| "resolve (n # ns) p =
     (if p = 0 then None
      else if p \<le> content_size (content n) + 1 then Some (0, p - 1)
      else map_option (\<lambda>(i, off). (Suc i, off)) (resolve ns (p - node_size n)))"

text \<open>\<^verbatim>\<open>$pos.parentOffset\<close>: at the top level the parent is the document, whose content starts
  at position \<open>0\<close>.\<close>

definition parentOffset :: "document \<Rightarrow> nat \<Rightarrow> nat" where
  "parentOffset d p = (case resolve d p of Some (i, off) \<Rightarrow> off | None \<Rightarrow> p)"

text \<open>\<^verbatim>\<open>$pos.before()\<close> and \<^verbatim>\<open>$pos.after()\<close> for a position inside the node of index \<open>i\<close>.\<close>

definition pos_before :: "document \<Rightarrow> nat \<Rightarrow> nat" where
  "pos_before d i = sum_list (map node_size (take i d))"

definition pos_after :: "document \<Rightarrow> nat \<Rightarrow> nat" where
  "pos_after d i = pos_before d i + node_size (d ! i)"

text \<open>\<^verbatim>\<open>tr.setNodeMarkup(pos, null, { level })\<close> on the node of index \<open>i\<close>: the type stays,
  the attributes become the given ones.\<close>

definition setNodeMarkup :: "document \<Rightarrow> nat \<Rightarrow> int \<Rightarrow> document" where
  "setNodeMarkup d i l = d[i := (d ! i)\<lparr>level := l\<rparr>]"

text \<open>
  The content of a node before and from a given offset, as the engine cuts it: a text
  that the offset falls into is cut in two texts with the same marks.
\<close>

fun cut_before :: "nat \<Rightarrow> inline list \<Rightarrow> inline list" where
  "cut_before k [] = []"
| "cut_before k (x # xs) =
     (if k = 0 then []
      else if inline_size x \<le> k then x # cut_before (k - inline_size x) xs
      else (case x of Text t ms \<Rightarrow> [Text (take k t) ms] | Non_text \<Rightarrow> []))"

fun cut_after :: "nat \<Rightarrow> inline list \<Rightarrow> inline list" where
  "cut_after k [] = []"
| "cut_after k (x # xs) =
     (if k = 0 then x # xs
      else if inline_size x \<le> k then cut_after (k - inline_size x) xs
      else (case x of Text t ms \<Rightarrow> Text (drop k t) ms # xs | Non_text \<Rightarrow> x # xs))"

datatype error = TransformError | RangeError

text \<open>
  \<^verbatim>\<open>tr.split(pos)\<close> with the default depth 1: the node that holds \<open>pos\<close> is closed there and a
  copy of it (same type, same attributes) is opened for the content behind. At a position
  between nodes there is no node to close and the step fails: the transform throws.
\<close>

definition tr_split :: "document \<Rightarrow> nat \<Rightarrow> error + document" where
  "tr_split d p =
     (case resolve d p of
        None \<Rightarrow> Inl TransformError
      | Some (j, off) \<Rightarrow>
          Inr (take j d
               @ [(d ! j)\<lparr>content := cut_before off (content (d ! j))\<rparr>,
                  (d ! j)\<lparr>content := cut_after off (content (d ! j))\<rparr>]
               @ drop (Suc j) d))"

text \<open>
  How the step of \<^verbatim>\<open>tr.split(pos)\<close> maps a position of the old document: the two new
  positions (one closing, one opening) are inserted at \<open>pos\<close>, and a position at \<open>pos\<close> itself
  moves behind them (the engine maps both ends of a text selection with association to
  the right; the selection of a key press in a node is a text selection).
\<close>

definition map_split :: "nat \<Rightarrow> nat \<Rightarrow> nat" where
  "map_split pos p = (if p < pos then p else p + 2)"

text \<open>
  \<^verbatim>\<open>tr.delete($from.before(), $from.after())\<close> on the node of index \<open>i\<close>. The document type
  \<^verbatim>\<open>OutlineDocument\<close> is imported by \<^verbatim>\<open>tree-note.ts\<close> and its file is not part of the
  sources, so what its content expression asks for is the parameter \<open>required\<close>: when the
  document must hold a node (\<^verbatim>\<open>outlineNode+\<close>, \<^verbatim>\<open>block+\<close>) the engine fits the replacement
  by filling in one node with the default attributes (level \<open>0\<close>, no content) where the
  deletion would leave none; when it need not (\<^verbatim>\<open>outlineNode*\<close>), the node is just removed.
\<close>

definition tr_delete :: "bool \<Rightarrow> document \<Rightarrow> nat \<Rightarrow> document" where
  "tr_delete required d i =
     (let d' = take i d @ drop (Suc i) d
      in if d' = [] \<and> required then [\<lparr>level = 0, content = []\<rparr>] else d')"

text \<open>
  The selection after that deletion: the cursor stood inside the deleted node; the engine
  puts it at the nearest text position, looking forward first (the start of the node now
  at index \<open>i\<close>), then backward (the end of the node before), and at \<open>0\<close> in an empty document.
\<close>

definition near_after_delete :: "document \<Rightarrow> nat \<Rightarrow> nat" where
  "near_after_delete d' i =
     (if i < length d' then pos_before d' i + 1
      else if d' = [] then 0
      else pos_before d' i - 1)"

text \<open>The document after the node of index \<open>i\<close> was split at the offset \<open>off\<close> of its content.\<close>

definition split_doc :: "document \<Rightarrow> nat \<Rightarrow> nat \<Rightarrow> document" where
  "split_doc d i off =
     take i d
     @ [(d ! i)\<lparr>content := cut_before off (content (d ! i))\<rparr>,
        (d ! i)\<lparr>content := cut_after off (content (d ! i))\<rparr>]
     @ drop (Suc i) d"

section \<open>The structural commands\<close>

datatype event =
    Node_created nat
  | Node_indented nat int
  | Node_unindented nat int

text \<open>
  A command returns its boolean, the state after it and the events it dispatched, in
  order. The keyboard handlers run on the view and always dispatch; the commands
  \<^verbatim>\<open>indent\<close> and \<^verbatim>\<open>unindent\<close> get \<^verbatim>\<open>dispatch\<close> from the caller (it is undefined in a dry run),
  which is the parameter \<open>dispatch\<close>.
\<close>

type_synonym outcome = "bool \<times> editor_state \<times> event list"

text \<open>The handler of \<^verbatim>\<open>Enter\<close> (the split).\<close>

definition Enter :: "editor_state \<Rightarrow> error + outcome" where
  "Enter st =
     (case resolve (doc st) (sel_from st) of
        None \<Rightarrow> Inr (False, st, [])
      | Some (i, off) \<Rightarrow>
          let currentLevel = level (doc st ! i) in
          (case tr_split (doc st) (sel_to st) of
             Inl e \<Rightarrow> Inl e
           | Inr d1 \<Rightarrow>
               let from1 = map_split (sel_to st) (sel_from st);
                   to1 = map_split (sel_to st) (sel_to st)
               in (case resolve d1 from1 of
                     None \<Rightarrow> Inl RangeError
                   | Some (j, off1) \<Rightarrow>
                       let newNodePos = pos_before d1 j;
                           d2 = setNodeMarkup d1 j currentLevel
                       in Inr (True,
                               \<lparr>doc = d2, sel_from = from1, sel_to = to1\<rparr>,
                               [Node_created newNodePos]))))"

text \<open>The handler of \<^verbatim>\<open>Backspace\<close> (the merge of an empty node).\<close>

definition Backspace :: "bool \<Rightarrow> editor_state \<Rightarrow> outcome" where
  "Backspace required st =
     (if sel_from st \<noteq> sel_to st \<or> parentOffset (doc st) (sel_from st) \<noteq> 0
      then (False, st, [])
      else (case resolve (doc st) (sel_from st) of
              None \<Rightarrow> (False, st, [])
            | Some (i, off) \<Rightarrow>
                if content_size (content (doc st ! i)) = 0
                then (let d' = tr_delete required (doc st) i;
                          p = near_after_delete d' i
                      in (True, \<lparr>doc = d', sel_from = p, sel_to = p\<rparr>, []))
                else (False, st, [])))"

definition indent :: "bool \<Rightarrow> editor_state \<Rightarrow> outcome" where
  "indent dispatch st =
     (case resolve (doc st) (sel_from st) of
        None \<Rightarrow> (False, st, [])
      | Some (i, off) \<Rightarrow>
          let currentLevel = level (doc st ! i);
              newLevel = min (currentLevel + 1) 10
          in if dispatch
             then (True,
                   st\<lparr>doc := setNodeMarkup (doc st) i newLevel\<rparr>,
                   [Node_indented (pos_before (doc st) i) newLevel])
             else (True, st, []))"

definition unindent :: "bool \<Rightarrow> editor_state \<Rightarrow> outcome" where
  "unindent dispatch st =
     (case resolve (doc st) (sel_from st) of
        None \<Rightarrow> (False, st, [])
      | Some (i, off) \<Rightarrow>
          let currentLevel = level (doc st ! i) in
          if currentLevel = 0 then (False, st, [])
          else
            let newLevel = max (currentLevel - 1) 0
            in if dispatch
               then (True,
                     st\<lparr>doc := setNodeMarkup (doc st) i newLevel\<rparr>,
                     [Node_unindented (pos_before (doc st) i) newLevel])
               else (True, st, []))"

text \<open>
  A session: the host moves the selection, or a key calls a command. A handler that
  throws leaves the state as it was (nothing was dispatched).
\<close>

datatype action = Select nat nat | Call_split | Call_indent | Call_unindent | Call_merge

fun step :: "bool \<Rightarrow> editor_state \<Rightarrow> action \<Rightarrow> editor_state" where
  "step required st (Select a b) = st\<lparr>sel_from := min a b, sel_to := max a b\<rparr>"
| "step required st Call_split =
     (case Enter st of Inl e \<Rightarrow> st | Inr (r, st', evs) \<Rightarrow> st')"
| "step required st Call_indent = fst (snd (indent True st))"
| "step required st Call_unindent = fst (snd (unindent True st))"
| "step required st Call_merge = fst (snd (Backspace required st))"

definition run :: "bool \<Rightarrow> editor_state \<Rightarrow> action list \<Rightarrow> editor_state" where
  "run required st acts = foldl (step required) st acts"

section \<open>Marks the export does not render\<close>

text \<open>
  \<open>wraps m\<close> holds of the three marks \<^verbatim>\<open>nodeToText\<close> tests for. \<open>strip_marks\<close> removes every
  other mark (links among them) from every text of a document: two documents that differ
  only in such marks have the same \<open>strip_marks\<close>.
\<close>

fun wraps :: "mark \<Rightarrow> bool" where
  "wraps Bold = True"
| "wraps Italic = True"
| "wraps Code = True"
| "wraps (Link h) = False"
| "wraps (Other_mark n) = False"

fun strip_inline :: "json_inline \<Rightarrow> json_inline" where
  "strip_inline (Json_text t marks) = Json_text t (map_option (filter wraps) marks)"
| "strip_inline Json_other = Json_other"

definition strip_marks :: "json_doc \<Rightarrow> json_doc" where
  "strip_marks d =
     map (\<lambda>n. n\<lparr>node_content := map_option (map strip_inline) (node_content n)\<rparr>) d"

section \<open>The bullet pattern, in words\<close>

text \<open>
  What the specification says of the import, to compare with \<open>match_line\<close>: a line matches
  the bullet pattern when, behind its leading whitespace, it has a dash, then at least
  one whitespace, then no line terminator up to its end; its node has half the length
  of the leading whitespace (rounded down) as level, and the text behind the whitespace
  that follows the dash as content.
\<close>

definition bullet_line :: "jsstring \<Rightarrow> bool" where
  "bullet_line l =
     (case dropWhile isSpace l of
        [] \<Rightarrow> False
      | c # r \<Rightarrow>
          c = dash \<and> (case r of [] \<Rightarrow> False | c' # r' \<Rightarrow> isSpace c')
          \<and> list_all isDot (dropWhile isSpace r))"

definition node_of_line :: "jsstring \<Rightarrow> json_node" where
  "node_of_line l =
     outlineNode (length (takeWhile isSpace l) div 2)
       (parseTextWithMarks (dropWhile isSpace (tl (dropWhile isSpace l))))"

section \<open>The documents that survive a round trip\<close>

text \<open>
  The subset of the documents for which export followed by import is proved to give the
  document back. A text is \<open>clean\<close> when it is not empty and has no asterisk, no backtick
  and no line terminator. A run is supported when it is a clean text without the key
  \<^verbatim>\<open>marks\<close>, or with a \<^verbatim>\<open>marks\<close> array of exactly one of bold, italic and code. A node is
  supported when it has \<^verbatim>\<open>attrs\<close> with a level and a \<^verbatim>\<open>content\<close> array (empty or not), all its
  inline children are supported runs, no two neighbours are both unmarked, and a first
  run without mark does not begin with whitespace. A document is supported when it has
  a node and all its nodes are supported. \<open>line_of\<close> is the line the export writes for a
  node.
\<close>

definition plain_char :: "code_unit \<Rightarrow> bool" where
  "plain_char c = (c \<noteq> star \<and> c \<noteq> tick \<and> \<not> isLineTerminator c)"

definition clean_text :: "jsstring \<Rightarrow> bool" where
  "clean_text t = (t \<noteq> [] \<and> list_all plain_char t)"

fun supported_run :: "json_inline \<Rightarrow> bool" where
  "supported_run (Json_text t marks) =
     (clean_text t
      \<and> (marks = None \<or> marks = Some [Bold] \<or> marks = Some [Italic] \<or> marks = Some [Code]))"
| "supported_run Json_other = False"

fun is_plain :: "json_inline \<Rightarrow> bool" where
  "is_plain (Json_text t marks) = (marks = None)"
| "is_plain Json_other = False"

fun no_adjacent_plain :: "json_inline list \<Rightarrow> bool" where
  "no_adjacent_plain [] = True"
| "no_adjacent_plain [x] = True"
| "no_adjacent_plain (x # y # r) = (\<not> (is_plain x \<and> is_plain y) \<and> no_adjacent_plain (y # r))"

fun starts_clear :: "json_inline list \<Rightarrow> bool" where
  "starts_clear (Json_text (a # t) None # c) = (\<not> isSpace a)"
| "starts_clear c = True"

definition supported_content :: "json_inline list \<Rightarrow> bool" where
  "supported_content c =
     (list_all supported_run c \<and> no_adjacent_plain c \<and> starts_clear c)"

definition supported_node :: "json_node \<Rightarrow> bool" where
  "supported_node n =
     ((case node_attrs n of Some (Some l) \<Rightarrow> True | Some None \<Rightarrow> False | None \<Rightarrow> False)
      \<and> (case node_content n of Some c \<Rightarrow> supported_content c | None \<Rightarrow> False))"

definition supported :: "json_doc \<Rightarrow> bool" where
  "supported d = (d \<noteq> [] \<and> list_all supported_node d)"

definition line_of :: "json_node \<Rightarrow> jsstring" where
  "line_of n = repeat (lit ''  '') (level_of n) @ lit ''- '' @ nodeToText n"

section \<open>Export: lemmas\<close>

lemma foldl_add_child:
  "foldl add_child acc cs = acc @ foldl add_child [] cs"
proof (induction cs arbitrary: acc)
  case Nil
  show ?case by simp
next
  case (Cons c cs)
  have "foldl add_child (add_child acc c) cs = add_child acc c @ foldl add_child [] cs"
    by (rule Cons.IH)
  moreover have "foldl add_child (add_child [] c) cs = add_child [] c @ foldl add_child [] cs"
    by (rule Cons.IH)
  moreover have "add_child acc c = acc @ add_child [] c"
    by (cases "(acc, c)" rule: add_child.cases) simp_all
  ultimately show ?case by simp
qed

lemma foldl_push_line:
  "foldl push_line acc d =
     acc @ map (\<lambda>n. repeat (lit ''  '') (level_of n) @ lit ''- '' @ nodeToText n) d"
  by (induction d arbitrary: acc) (simp_all add: push_line_def)

lemma lit_simps:
  "lit [] = []" "lit (c # cs) = of_char c # lit cs"
  by (simp_all add: lit_def)

lemma nodeToText_outlineNode: "nodeToText (outlineNode l c) = foldl add_child [] c"
  by (simp add: nodeToText_def outlineNode_def)

lemma level_of_outlineNode: "level_of (outlineNode l c) = l"
  by (simp add: level_of_def outlineNode_def)

text \<open>
  Claim C7. \<^verbatim>\<open>toMarkdown\<close> makes one line for each node, in the order of the document: two
  blanks repeated \<open>level\<close> times, then \<^verbatim>\<open>"- "\<close>, then the inline content as \<^verbatim>\<open>nodeToText\<close>
  renders it; the lines are joined by newlines. The document of the two nodes \<open>A\<close> (level 0)
  and \<open>B\<close> (level 1) exports as \<^verbatim>\<open>"- A\n  - B"\<close>.
\<close>

theorem toMarkdown_lines:
  "toMarkdown d =
     join [newline]
       (map (\<lambda>n. concat (replicate (level_of n) (lit ''  '')) @ lit ''- '' @ nodeToText n) d)
   \<and> length (foldl push_line [] d) = length d
   \<and> toMarkdown [outlineNode 0 [Json_text (lit ''A'') None],
                 outlineNode 1 [Json_text (lit ''B'') None]] = lit ''- A\<newline>  - B''"
proof (intro conjI)
  show "toMarkdown d =
     join [newline]
       (map (\<lambda>n. concat (replicate (level_of n) (lit ''  '')) @ lit ''- '' @ nodeToText n) d)"
    by (simp add: toMarkdown_def foldl_push_line repeat_def)
  show "length (foldl push_line [] d) = length d"
    by (simp add: foldl_push_line)
  show "toMarkdown [outlineNode 0 [Json_text (lit ''A'') None],
                 outlineNode 1 [Json_text (lit ''B'') None]] = lit ''- A\<newline>  - B''"
    by (simp add: toMarkdown_def push_line_def repeat_def nodeToText_outlineNode
        level_of_outlineNode lit_simps newline_def)
qed

theorem toMarkdown_lines_witness:
  "toMarkdown [outlineNode 2 [Json_text (lit ''x'') (Some [Bold])]] = lit ''    - **x**''"
  using toMarkdown_lines [of "[outlineNode 2 [Json_text (lit ''x'') (Some [Bold])]]"]
  by (simp add: nodeToText_outlineNode level_of_outlineNode lit_simps numeral_2_eq_2)

section \<open>Export: the marks\<close>

text \<open>
  Claim C9 says that bold is the outermost of the three wrappings whatever the order of
  the marks of a run. The loop wraps in the order of the list: bold listed before code
  ends up inside the code span, and the two orders give two different strings.
\<close>

theorem bold_outermost_counterexample:
  "nodeToText (outlineNode 0 [Json_text (lit ''x'') (Some [Bold, Code])]) = lit ''`**x**`''
   \<and> nodeToText (outlineNode 0 [Json_text (lit ''x'') (Some [Code, Bold])]) = lit ''**`x`**''
   \<and> nodeToText (outlineNode 0 [Json_text (lit ''x'') (Some [Bold, Code])])
       \<noteq> nodeToText (outlineNode 0 [Json_text (lit ''x'') (Some [Code, Bold])])"
  by (simp add: nodeToText_outlineNode lit_simps)

text \<open>
  Claim C9, amended. The marks of a run are wrapped as nested spans in the order the run
  lists them: the mark listed last is the outermost wrapping, around the rendering of
  the run with the marks before it.
\<close>

theorem marks_wrap_in_listed_order:
  "nodeToText (outlineNode l [Json_text t (Some (ms @ [m]))]) =
     wrap (nodeToText (outlineNode l [Json_text t (Some ms)])) m"
  by (simp add: nodeToText_outlineNode)

theorem marks_wrap_in_listed_order_witness:
  "nodeToText (outlineNode 0 [Json_text (lit ''x'') (Some [Italic, Bold, Code])]) =
     lit ''`'' @ nodeToText (outlineNode 0 [Json_text (lit ''x'') (Some [Italic, Bold])]) @ lit ''`''"
  using marks_wrap_in_listed_order [of 0 "lit ''x''" "[Italic, Bold]" Code]
  by simp

lemma foldl_wrap_filter: "foldl wrap t (filter wraps ms) = foldl wrap t ms"
proof (induction ms arbitrary: t)
  case Nil
  show ?case by simp
next
  case (Cons m ms)
  then show ?case by (cases m) simp_all
qed

lemma add_child_strip: "add_child acc (strip_inline c) = add_child acc c"
  by (cases "(acc, c)" rule: add_child.cases) (simp_all add: foldl_wrap_filter)

lemma foldl_add_child_strip:
  "foldl add_child acc (map strip_inline cs) = foldl add_child acc cs"
  by (induction cs arbitrary: acc) (simp_all add: add_child_strip)

lemma nodeToText_strip:
  "nodeToText (n\<lparr>node_content := map_option (map strip_inline) (node_content n)\<rparr>) = nodeToText n"
  by (cases "node_content n") (simp_all add: nodeToText_def foldl_add_child_strip)

lemma level_of_strip:
  "level_of (n\<lparr>node_content := c\<rparr>) = level_of n"
  by (simp add: level_of_def)

lemma toMarkdown_strip: "toMarkdown (strip_marks d) = toMarkdown d"
  by (simp add: toMarkdown_def foldl_push_line strip_marks_def nodeToText_strip level_of_strip
      comp_def)

text \<open>
  Claim C10. A text whose only mark is a link, or any mark other than bold, italic and
  code, is exported as its bare text; removing all such marks from a document does not
  change its export, so two documents that differ only in such marks export alike.
\<close>

theorem link_marks_discarded:
  "nodeToText (outlineNode l [Json_text t (Some [Link h])]) = t
   \<and> nodeToText (outlineNode l [Json_text t (Some [Other_mark k])]) = t
   \<and> toMarkdown (strip_marks d) = toMarkdown d
   \<and> (strip_marks d = strip_marks d' \<longrightarrow> toMarkdown d = toMarkdown d')"
proof (intro conjI impI)
  show "nodeToText (outlineNode l [Json_text t (Some [Link h])]) = t"
    by (simp add: nodeToText_outlineNode)
  show "nodeToText (outlineNode l [Json_text t (Some [Other_mark k])]) = t"
    by (simp add: nodeToText_outlineNode)
  show "toMarkdown (strip_marks d) = toMarkdown d"
    by (rule toMarkdown_strip)
  assume "strip_marks d = strip_marks d'"
  then have "toMarkdown (strip_marks d) = toMarkdown (strip_marks d')"
    by simp
  then show "toMarkdown d = toMarkdown d'"
    by (simp add: toMarkdown_strip)
qed

theorem link_marks_discarded_witness:
  "strip_marks [outlineNode 1 [Json_text (lit ''a'') (Some [Link (lit ''u''), Bold])]]
     = strip_marks [outlineNode 1 [Json_text (lit ''a'') (Some [Bold, Link (lit ''v'')])]]
   \<and> toMarkdown [outlineNode 1 [Json_text (lit ''a'') (Some [Link (lit ''u''), Bold])]]
     = toMarkdown [outlineNode 1 [Json_text (lit ''a'') (Some [Bold, Link (lit ''v'')])]]"
  using link_marks_discarded [of 0 "[]" "[]" "[]"
      "[outlineNode 1 [Json_text (lit ''a'') (Some [Link (lit ''u''), Bold])]]"
      "[outlineNode 1 [Json_text (lit ''a'') (Some [Bold, Link (lit ''v'')])]]"]
  by (simp add: strip_marks_def outlineNode_def)

section \<open>Positions\<close>

lemma resolve_iff:
  "resolve d p = Some (i, off) \<longleftrightarrow>
     i < length d \<and> p = pos_before d i + 1 + off \<and> off \<le> content_size (content (d ! i))"
proof (induction d arbitrary: p i)
  case Nil
  show ?case by simp
next
  case (Cons n ns)
  show ?case
  proof (cases i)
    case 0
    then show ?thesis
      by (auto simp: pos_before_def node_size_def Cons.IH)
  next
    case (Suc j)
    then show ?thesis
      by (auto simp: pos_before_def node_size_def Cons.IH)
  qed
qed

lemma setNodeMarkup_same:
  "i < length d \<Longrightarrow> level (d ! i) = l \<Longrightarrow> setNodeMarkup d i l = d"
  by (simp add: setNodeMarkup_def list_update_same_conv)

section \<open>Indent and unindent at the bounds\<close>

text \<open>
  Claim C5. With the selection inside a node at level 0, \<^verbatim>\<open>unindent\<close> returns false, leaves
  the state (document and selection) as it is and dispatches no event.
\<close>

theorem unindent_at_level_0:
  assumes "resolve (doc st) (sel_from st) = Some (i, off)"
    and "level (doc st ! i) = 0"
  shows "unindent dispatch st = (False, st, [])"
  using assms by (simp add: unindent_def)

theorem unindent_at_level_0_witness:
  "resolve [\<lparr>level = 0, content = [Text (lit ''ab'') []]\<rparr>] 2 = Some (0, 1)
   \<and> unindent True
       \<lparr>doc = [\<lparr>level = 0, content = [Text (lit ''ab'') []]\<rparr>], sel_from = 2, sel_to = 2\<rparr>
     = (False,
        \<lparr>doc = [\<lparr>level = 0, content = [Text (lit ''ab'') []]\<rparr>], sel_from = 2, sel_to = 2\<rparr>,
        [])"
proof -
  have r: "resolve
      (doc \<lparr>doc = [\<lparr>level = 0, content = [Text (lit ''ab'') []]\<rparr>], sel_from = 2, sel_to = 2\<rparr>)
      (sel_from \<lparr>doc = [\<lparr>level = 0, content = [Text (lit ''ab'') []]\<rparr>], sel_from = 2, sel_to = 2\<rparr>)
      = Some (0, 1)"
    by (simp add: content_size_def lit_simps)
  show ?thesis
    using r unindent_at_level_0 [OF r, of True] by simp
qed

text \<open>
  Claim C2 says that \<^verbatim>\<open>indent\<close> on a node at level 10 returns false and dispatches no
  event. The command has no test for the bound, only \<^verbatim>\<open>Math.min(currentLevel + 1, 10)\<close>:
  at level 10 it writes level 10 again, so the document is the same, but it returns true
  and dispatches \<^verbatim>\<open>node-indented\<close> with level 10.
\<close>

theorem indent_at_level_10:
  assumes "resolve (doc st) (sel_from st) = Some (i, off)"
    and "level (doc st ! i) = 10"
  shows "indent True st = (True, st, [Node_indented (pos_before (doc st) i) 10])"
proof -
  from assms(1) have "i < length (doc st)"
    by (simp add: resolve_iff)
  with assms(2) have "setNodeMarkup (doc st) i 10 = doc st"
    by (simp add: setNodeMarkup_same)
  with assms show ?thesis
    by (simp add: indent_def)
qed

theorem indent_at_level_10_witness:
  "indent True
     \<lparr>doc = [\<lparr>level = 10, content = [Text (lit ''a'') []]\<rparr>], sel_from = 1, sel_to = 1\<rparr>
     = (True,
        \<lparr>doc = [\<lparr>level = 10, content = [Text (lit ''a'') []]\<rparr>], sel_from = 1, sel_to = 1\<rparr>,
        [Node_indented 0 10])"
proof -
  have r: "resolve
      (doc \<lparr>doc = [\<lparr>level = 10, content = [Text (lit ''a'') []]\<rparr>], sel_from = 1, sel_to = 1\<rparr>)
      (sel_from \<lparr>doc = [\<lparr>level = 10, content = [Text (lit ''a'') []]\<rparr>], sel_from = 1, sel_to = 1\<rparr>)
      = Some (0, 0)"
    by (simp add: content_size_def lit_simps)
  show ?thesis
    using indent_at_level_10 [OF r] by (simp add: pos_before_def)
qed

section \<open>The levels stay in range\<close>

lemma length_setNodeMarkup: "length (setNodeMarkup d i l) = length d"
  by (simp add: setNodeMarkup_def)

lemma setNodeMarkup_levels:
  assumes "0 \<le> l \<and> l \<le> 10" and "\<forall>n\<in>set d. 0 \<le> level n \<and> level n \<le> 10"
  shows "\<forall>n\<in>set (setNodeMarkup d i l). 0 \<le> level n \<and> level n \<le> 10"
proof
  fix n assume "n \<in> set (setNodeMarkup d i l)"
  then have "n \<in> insert ((d ! i)\<lparr>level := l\<rparr>) (set d)"
    using set_update_subset_insert [of d i "(d ! i)\<lparr>level := l\<rparr>"]
    by (auto simp: setNodeMarkup_def)
  with assms show "0 \<le> level n \<and> level n \<le> 10" by auto
qed

lemma tr_split_levels:
  assumes "tr_split d p = Inr d1" and "\<forall>n\<in>set d. 0 \<le> level n \<and> level n \<le> 10"
  shows "\<forall>n\<in>set d1. 0 \<le> level n \<and> level n \<le> 10"
proof -
  from assms(1) obtain j off where r: "resolve d p = Some (j, off)"
    and d1: "d1 = take j d
               @ [(d ! j)\<lparr>content := cut_before off (content (d ! j))\<rparr>,
                  (d ! j)\<lparr>content := cut_after off (content (d ! j))\<rparr>]
               @ drop (Suc j) d"
    by (auto simp: tr_split_def split: option.splits)
  from r have "j < length d" by (simp add: resolve_iff)
  then have "0 \<le> level (d ! j) \<and> level (d ! j) \<le> 10" using assms(2) by simp
  moreover have "\<forall>n\<in>set (take j d). 0 \<le> level n \<and> level n \<le> 10"
    using assms(2) by (meson in_set_takeD)
  moreover have "\<forall>n\<in>set (drop (Suc j) d). 0 \<le> level n \<and> level n \<le> 10"
    using assms(2) by (meson in_set_dropD)
  ultimately show ?thesis by (auto simp: d1)
qed

lemma tr_split_length:
  "tr_split d p = Inr d1 \<Longrightarrow> length d1 = Suc (length d)"
  by (auto simp: tr_split_def resolve_iff split: option.splits prod.splits)

lemma tr_delete_levels:
  assumes "\<forall>n\<in>set d. 0 \<le> level n \<and> level n \<le> 10"
  shows "\<forall>n\<in>set (tr_delete required d i). 0 \<le> level n \<and> level n \<le> 10"
proof -
  have "\<forall>n\<in>set (take i d @ drop (Suc i) d). 0 \<le> level n \<and> level n \<le> 10"
    using assms by (auto dest: in_set_takeD in_set_dropD)
  then show ?thesis by (simp add: tr_delete_def Let_def)
qed

lemma Enter_levels:
  assumes "Enter st = Inr (r, st', evs)" and "\<forall>n\<in>set (doc st). 0 \<le> level n \<and> level n \<le> 10"
  shows "\<forall>n\<in>set (doc st'). 0 \<le> level n \<and> level n \<le> 10"
proof (cases "resolve (doc st) (sel_from st)")
  case None
  with assms show ?thesis by (simp add: Enter_def)
next
  case (Some a)
  obtain i off where a: "a = (i, off)" by (cases a)
  from Some a have "i < length (doc st)" by (simp add: resolve_iff)
  then have l: "0 \<le> level (doc st ! i) \<and> level (doc st ! i) \<le> 10"
    using assms(2) by simp
  from assms(1) Some a obtain d1 j where s: "tr_split (doc st) (sel_to st) = Inr d1"
    and d: "doc st' = setNodeMarkup d1 j (level (doc st ! i))"
    by (auto simp: Enter_def Let_def split: sum.splits option.splits)
  from s assms(2) have "\<forall>n\<in>set d1. 0 \<le> level n \<and> level n \<le> 10" by (rule tr_split_levels)
  with l show ?thesis unfolding d by (rule setNodeMarkup_levels)
qed

lemma Enter_nonempty:
  assumes "Enter st = Inr (r, st', evs)" and "doc st \<noteq> []"
  shows "doc st' \<noteq> []"
proof (cases "resolve (doc st) (sel_from st)")
  case None
  with assms show ?thesis by (simp add: Enter_def)
next
  case (Some a)
  obtain i off where a: "a = (i, off)" by (cases a)
  from assms(1) Some a obtain d1 j where s: "tr_split (doc st) (sel_to st) = Inr d1"
    and d: "doc st' = setNodeMarkup d1 j (level (doc st ! i))"
    by (auto simp: Enter_def Let_def split: sum.splits option.splits)
  from s have "length d1 = Suc (length (doc st))" by (rule tr_split_length)
  then have "length (doc st') \<noteq> 0" by (simp add: d length_setNodeMarkup)
  then show ?thesis by auto
qed

lemma indent_levels:
  assumes "\<forall>n\<in>set (doc st). 0 \<le> level n \<and> level n \<le> 10"
  shows "\<forall>n\<in>set (doc (fst (snd (indent dispatch st)))). 0 \<le> level n \<and> level n \<le> 10"
proof (cases "resolve (doc st) (sel_from st)")
  case None
  with assms show ?thesis by (simp add: indent_def)
next
  case (Some a)
  obtain i off where a: "a = (i, off)" by (cases a)
  from Some a have "i < length (doc st)" by (simp add: resolve_iff)
  then have "0 \<le> level (doc st ! i)" using assms by simp
  then have l: "0 \<le> min (level (doc st ! i) + 1) 10 \<and> min (level (doc st ! i) + 1) 10 \<le> 10"
    by simp
  have "\<forall>n\<in>set (setNodeMarkup (doc st) i (min (level (doc st ! i) + 1) 10)).
      0 \<le> level n \<and> level n \<le> 10"
    using l assms by (rule setNodeMarkup_levels)
  with Some a assms show ?thesis
    by (simp add: indent_def Let_def)
qed

lemma unindent_levels:
  assumes "\<forall>n\<in>set (doc st). 0 \<le> level n \<and> level n \<le> 10"
  shows "\<forall>n\<in>set (doc (fst (snd (unindent dispatch st)))). 0 \<le> level n \<and> level n \<le> 10"
proof (cases "resolve (doc st) (sel_from st)")
  case None
  with assms show ?thesis by (simp add: unindent_def)
next
  case (Some a)
  obtain i off where a: "a = (i, off)" by (cases a)
  from Some a have "i < length (doc st)" by (simp add: resolve_iff)
  then have "level (doc st ! i) \<le> 10" using assms by simp
  then have l: "0 \<le> max (level (doc st ! i) - 1) 0 \<and> max (level (doc st ! i) - 1) 0 \<le> 10"
    by simp
  have "\<forall>n\<in>set (setNodeMarkup (doc st) i (max (level (doc st ! i) - 1) 0)).
      0 \<le> level n \<and> level n \<le> 10"
    using l assms by (rule setNodeMarkup_levels)
  with Some a assms show ?thesis
    by (simp add: unindent_def Let_def)
qed

lemma Backspace_levels:
  assumes "\<forall>n\<in>set (doc st). 0 \<le> level n \<and> level n \<le> 10"
  shows "\<forall>n\<in>set (doc (fst (snd (Backspace required st)))). 0 \<le> level n \<and> level n \<le> 10"
  using assms tr_delete_levels [OF assms]
  by (simp add: Backspace_def Let_def split: option.splits)

lemma step_levels:
  assumes "\<forall>n\<in>set (doc st). 0 \<le> level n \<and> level n \<le> 10"
  shows "\<forall>n\<in>set (doc (step required st a)). 0 \<le> level n \<and> level n \<le> 10"
proof (cases a)
  case (Select x y)
  with assms show ?thesis by simp
next
  case Call_split
  show ?thesis
  proof (cases "Enter st")
    case (Inl e)
    with Call_split assms show ?thesis by simp
  next
    case (Inr out)
    obtain r st' evs where out: "out = (r, st', evs)" by (cases out)
    with Inr assms have "\<forall>n\<in>set (doc st'). 0 \<le> level n \<and> level n \<le> 10"
      by (auto dest: Enter_levels)
    with Call_split Inr out show ?thesis by simp
  qed
next
  case Call_indent
  with indent_levels [OF assms] show ?thesis by simp
next
  case Call_unindent
  with unindent_levels [OF assms] show ?thesis by simp
next
  case Call_merge
  with Backspace_levels [OF assms] show ?thesis by simp
qed

text \<open>
  Claim C4. From a document whose levels all lie between 0 and 10, any sequence of
  selections and of calls of split, indent and unindent (and of merge as well) leads to
  a document whose levels all lie between 0 and 10. The levels are integers: the upper
  bound rests on \<^verbatim>\<open>Math.min(currentLevel + 1, 10)\<close> in \<^verbatim>\<open>indent\<close>, the lower bound on the test
  \<^verbatim>\<open>currentLevel === 0\<close> and on \<^verbatim>\<open>Math.max(currentLevel - 1, 0)\<close> in \<^verbatim>\<open>unindent\<close>. The statement
  does not need the document to be non-empty.
\<close>

theorem levels_stay_in_range:
  assumes "\<forall>n\<in>set (doc st). 0 \<le> level n \<and> level n \<le> 10"
  shows "\<forall>n\<in>set (doc (run required st acts)). 0 \<le> level n \<and> level n \<le> 10"
proof -
  have "\<forall>n\<in>set (doc (foldl (step required) st acts)). 0 \<le> level n \<and> level n \<le> 10"
    using assms
  proof (induction acts arbitrary: st)
    case Nil
    then show ?case by simp
  next
    case (Cons a acts)
    from Cons.prems have "\<forall>n\<in>set (doc (step required st a)). 0 \<le> level n \<and> level n \<le> 10"
      by (rule step_levels)
    then have "\<forall>n\<in>set (doc (foldl (step required) (step required st a) acts)).
        0 \<le> level n \<and> level n \<le> 10"
      by (rule Cons.IH)
    then show ?case by simp
  qed
  then show ?thesis by (simp add: run_def)
qed

theorem levels_stay_in_range_witness:
  "map level (doc (run True
        \<lparr>doc = [\<lparr>level = 9, content = [Text (lit ''ab'') []]\<rparr>], sel_from = 2, sel_to = 2\<rparr>
        [Call_indent, Call_indent, Call_split, Call_unindent, Select 2 2,
         Call_unindent, Call_unindent, Call_unindent, Call_unindent, Call_unindent,
         Call_unindent, Call_unindent, Call_unindent, Call_unindent, Call_unindent,
         Call_unindent, Call_unindent])) = [0, 9]
   \<and> list_all (\<lambda>n. 0 \<le> level n \<and> level n \<le> 10)
        (doc (run True
          \<lparr>doc = [\<lparr>level = 9, content = [Text (lit ''ab'') []]\<rparr>], sel_from = 2, sel_to = 2\<rparr>
          [Call_indent, Call_indent, Call_split, Call_unindent, Select 2 2,
           Call_unindent, Call_unindent, Call_unindent, Call_unindent, Call_unindent,
           Call_unindent, Call_unindent, Call_unindent, Call_unindent, Call_unindent,
           Call_unindent, Call_unindent]))"
proof -
  have h: "\<forall>n\<in>set (doc \<lparr>doc = [\<lparr>level = 9, content = [Text (lit ''ab'') []]\<rparr>],
      sel_from = 2, sel_to = 2\<rparr>). 0 \<le> level n \<and> level n \<le> 10"
    by simp
  have e: "map level (doc (run True
        \<lparr>doc = [\<lparr>level = 9, content = [Text (lit ''ab'') []]\<rparr>], sel_from = 2, sel_to = 2\<rparr>
        [Call_indent, Call_indent, Call_split, Call_unindent, Select 2 2,
         Call_unindent, Call_unindent, Call_unindent, Call_unindent, Call_unindent,
         Call_unindent, Call_unindent, Call_unindent, Call_unindent, Call_unindent,
         Call_unindent, Call_unindent])) = [0, 9]"
    by code_simp
  show ?thesis
    using levels_stay_in_range [OF h, of True
        "[Call_indent, Call_indent, Call_split, Call_unindent, Select 2 2,
          Call_unindent, Call_unindent, Call_unindent, Call_unindent, Call_unindent,
          Call_unindent, Call_unindent, Call_unindent, Call_unindent, Call_unindent,
          Call_unindent, Call_unindent]"] e
    by (simp add: list_all_iff)
qed

section \<open>The split\<close>

lemma content_size_simps:
  "content_size [] = 0"
  "content_size (x # xs) = inline_size x + content_size xs"
  by (simp_all add: content_size_def)

lemma content_size_cut_before:
  "off \<le> content_size c \<Longrightarrow> content_size (cut_before off c) = off"
proof (induction c arbitrary: off)
  case Nil
  then show ?case by (simp add: content_size_simps)
next
  case (Cons x xs)
  show ?case
  proof (cases "off = 0")
    case True
    then show ?thesis by (simp add: content_size_simps)
  next
    case False
    show ?thesis
    proof (cases "inline_size x \<le> off")
      case True
      with Cons.prems have "off - inline_size x \<le> content_size xs"
        by (simp add: content_size_simps)
      then have "content_size (cut_before (off - inline_size x) xs) = off - inline_size x"
        by (rule Cons.IH)
      with True False show ?thesis by (simp add: content_size_simps)
    next
      case False
      then show ?thesis
        by (cases x) (auto simp: content_size_simps)
    qed
  qed
qed


lemma tr_split_resolved:
  "resolve d p = Some (i, off) \<Longrightarrow> tr_split d p = Inr (split_doc d i off)"
  by (simp add: tr_split_def split_doc_def)

lemma split_doc_facts:
  assumes "i < length d"
  shows "length (split_doc d i off) = Suc (length d)"
    and "take i (split_doc d i off) = take i d"
    and "split_doc d i off ! i = (d ! i)\<lparr>content := cut_before off (content (d ! i))\<rparr>"
    and "split_doc d i off ! Suc i = (d ! i)\<lparr>content := cut_after off (content (d ! i))\<rparr>"
    and "take (Suc i) (split_doc d i off) =
           take i d @ [(d ! i)\<lparr>content := cut_before off (content (d ! i))\<rparr>]"
  using assms by (simp_all add: split_doc_def nth_append)

lemma pos_before_Suc:
  "i < length d \<Longrightarrow> pos_before d (Suc i) = pos_before d i + node_size (d ! i)"
  by (simp add: pos_before_def take_Suc_conv_app_nth)

lemma pos_before_split_doc:
  assumes "i < length d"
  shows "pos_before (split_doc d i off) i = pos_before d i"
  using assms by (simp add: pos_before_def split_doc_facts)

lemma pos_before_split_doc_Suc:
  assumes "i < length d" and "off \<le> content_size (content (d ! i))"
  shows "pos_before (split_doc d i off) (Suc i) = pos_before d i + (off + 2)"
proof -
  have "pos_before (split_doc d i off) (Suc i) =
      pos_before (split_doc d i off) i + node_size (split_doc d i off ! i)"
    using assms(1) by (simp add: pos_before_Suc split_doc_facts)
  also have "\<dots> = pos_before d i + (off + 2)"
    using assms by (simp add: pos_before_split_doc split_doc_facts node_size_def
        content_size_cut_before)
  finally show ?thesis .
qed

lemma setNodeMarkup_split_doc:
  assumes "i < length d"
  shows "setNodeMarkup (split_doc d i off) i (level (d ! i)) = split_doc d i off"
    and "setNodeMarkup (split_doc d i off) (Suc i) (level (d ! i)) = split_doc d i off"
  using assms by (simp_all add: setNodeMarkup_same split_doc_facts)

text \<open>
  With a collapsed selection the handler does what claim C6 says: the node is cut at the
  cursor, the new node follows it with the same level and the content behind the cursor,
  the cursor moves to the start of the new node, and the event carries the position of
  the new node.
\<close>

lemma Enter_collapsed:
  assumes r: "resolve (doc st) (sel_from st) = Some (i, off)"
    and c: "sel_to st = sel_from st"
  shows "Enter st =
     Inr (True,
          \<lparr>doc = split_doc (doc st) i off,
             sel_from = sel_from st + 2, sel_to = sel_from st + 2\<rparr>,
          [Node_created (sel_from st + 1)])"
    and "pos_before (split_doc (doc st) i off) (Suc i) = sel_from st + 1"
proof -
  let ?d = "doc st" and ?d1 = "split_doc (doc st) i off"
  from r have i: "i < length ?d" and p: "sel_from st = pos_before ?d i + 1 + off"
    and o: "off \<le> content_size (content (?d ! i))"
    by (simp_all add: resolve_iff)
  have b: "pos_before ?d1 (Suc i) = pos_before ?d i + (off + 2)"
    using i o by (rule pos_before_split_doc_Suc)
  with p show "pos_before ?d1 (Suc i) = sel_from st + 1" by simp
  have "resolve ?d1 (sel_from st + 2) = Some (Suc i, 0)"
    unfolding resolve_iff using i b p by (simp add: split_doc_facts)
  with r c i b p show "Enter st =
     Inr (True, \<lparr>doc = ?d1, sel_from = sel_from st + 2, sel_to = sel_from st + 2\<rparr>,
          [Node_created (sel_from st + 1)])"
    by (simp add: Enter_def tr_split_resolved map_split_def setNodeMarkup_split_doc)
qed

text \<open>
  Claim C6 speaks of every selection inside a node. The handler splits at the end of the
  selection (\<^verbatim>\<open>state.selection.to\<close>) and then reads the position of the new node from the
  start of the mapped selection (\<^verbatim>\<open>transaction.selection.$from.before()\<close>). When the
  selection is a range inside one node its start stays in the first half, so
  \<^verbatim>\<open>newNodePos\<close> is the position of the original node: the event \<^verbatim>\<open>node-created\<close> carries
  that position and not the position of the new node, which is one behind the end of
  the selection.
\<close>

theorem Enter_range_selection:
  assumes f: "resolve (doc st) (sel_from st) = Some (i, off)"
    and t: "resolve (doc st) (sel_to st) = Some (i, off')"
    and lt: "off < off'"
  shows "Enter st =
     Inr (True,
          \<lparr>doc = split_doc (doc st) i off', sel_from = sel_from st, sel_to = sel_to st + 2\<rparr>,
          [Node_created (pos_before (doc st) i)])
     \<and> pos_before (split_doc (doc st) i off') (Suc i) = sel_to st + 1
     \<and> pos_before (doc st) i < sel_to st + 1"
proof -
  let ?d = "doc st" and ?d1 = "split_doc (doc st) i off'"
  from f have i: "i < length ?d" and pf: "sel_from st = pos_before ?d i + 1 + off"
    by (simp_all add: resolve_iff)
  from t have pt: "sel_to st = pos_before ?d i + 1 + off'"
    and o: "off' \<le> content_size (content (?d ! i))"
    by (simp_all add: resolve_iff)
  from pf pt lt have less: "sel_from st < sel_to st" by simp
  have b: "pos_before ?d1 i = pos_before ?d i"
    using i by (rule pos_before_split_doc)
  have "resolve ?d1 (sel_from st) = Some (i, off)"
    unfolding resolve_iff using i b pf lt o
    by (simp add: split_doc_facts content_size_cut_before)
  with f t i less b have e: "Enter st =
     Inr (True, \<lparr>doc = ?d1, sel_from = sel_from st, sel_to = sel_to st + 2\<rparr>,
          [Node_created (pos_before ?d i)])"
    by (simp add: Enter_def tr_split_resolved map_split_def setNodeMarkup_split_doc)
  have "pos_before ?d1 (Suc i) = pos_before ?d i + (off' + 2)"
    using i o by (rule pos_before_split_doc_Suc)
  with pt have n: "pos_before ?d1 (Suc i) = sel_to st + 1" by simp
  from pt have "pos_before ?d i < sel_to st + 1" by simp
  with e n show ?thesis by simp
qed

theorem Enter_range_selection_witness:
  "Enter \<lparr>doc = [\<lparr>level = 0, content = [Text (lit ''abcd'') []]\<rparr>], sel_from = 2, sel_to = 4\<rparr>
     = Inr (True,
            \<lparr>doc = [\<lparr>level = 0, content = [Text (lit ''abc'') []]\<rparr>,
                    \<lparr>level = 0, content = [Text (lit ''d'') []]\<rparr>],
               sel_from = 2, sel_to = 6\<rparr>,
            [Node_created 0])
   \<and> pos_before [\<lparr>level = 0, content = [Text (lit ''abc'') []]\<rparr>,
                  \<lparr>level = 0, content = [Text (lit ''d'') []]\<rparr>] 1 = 5"
proof -
  let ?st = "\<lparr>doc = [\<lparr>level = 0, content = [Text (lit ''abcd'') []]\<rparr>], sel_from = 2, sel_to = 4\<rparr>"
  have f: "resolve (doc ?st) (sel_from ?st) = Some (0, 1)"
    by (simp add: content_size_def lit_simps)
  have t: "resolve (doc ?st) (sel_to ?st) = Some (0, 3)"
    by (simp add: content_size_def lit_simps)
  have lt: "(1::nat) < 3" by simp
  have s: "split_doc (doc ?st) 0 3 =
      [\<lparr>level = 0, content = [Text (lit ''abc'') []]\<rparr>,
       \<lparr>level = 0, content = [Text (lit ''d'') []]\<rparr>]"
    by (simp add: split_doc_def lit_simps)
  show ?thesis
    using Enter_range_selection [OF f t lt] s
    by (simp add: pos_before_def)
qed

section \<open>The merge and the last node\<close>

lemma tr_delete_required_nonempty: "tr_delete True d i \<noteq> []"
  by (simp add: tr_delete_def Let_def)

lemma setNodeMarkup_nonempty: "d \<noteq> [] \<Longrightarrow> setNodeMarkup d i l \<noteq> []"
  by (simp add: setNodeMarkup_def)

lemma indent_nonempty:
  "doc st \<noteq> [] \<Longrightarrow> doc (fst (snd (indent dispatch st))) \<noteq> []"
  by (simp add: indent_def Let_def setNodeMarkup_nonempty split: option.splits)

lemma unindent_nonempty:
  "doc st \<noteq> [] \<Longrightarrow> doc (fst (snd (unindent dispatch st))) \<noteq> []"
  by (simp add: unindent_def Let_def setNodeMarkup_nonempty split: option.splits)

lemma Backspace_required_nonempty:
  "doc st \<noteq> [] \<Longrightarrow> doc (fst (snd (Backspace True st))) \<noteq> []"
  by (simp add: Backspace_def Let_def tr_delete_required_nonempty split: option.splits)

lemma step_required_nonempty:
  assumes "doc st \<noteq> []"
  shows "doc (step True st a) \<noteq> []"
proof (cases a)
  case (Select x y)
  with assms show ?thesis by simp
next
  case Call_split
  show ?thesis
  proof (cases "Enter st")
    case (Inl e)
    with Call_split assms show ?thesis by simp
  next
    case (Inr out)
    obtain r st' evs where out: "out = (r, st', evs)" by (cases out)
    with Inr assms have "doc st' \<noteq> []"
      by (auto dest: Enter_nonempty)
    with Call_split Inr out show ?thesis by simp
  qed
next
  case Call_indent
  with indent_nonempty [OF assms] show ?thesis by simp
next
  case Call_unindent
  with unindent_nonempty [OF assms] show ?thesis by simp
next
  case Call_merge
  with Backspace_required_nonempty [OF assms] show ?thesis by simp
qed

lemma run_required_nonempty:
  "doc st \<noteq> [] \<Longrightarrow> doc (foldl (step True) st acts) \<noteq> []"
proof (induction acts arbitrary: st)
  case Nil
  then show ?case by simp
next
  case (Cons a acts)
  from Cons.prems have "doc (step True st a) \<noteq> []"
    by (rule step_required_nonempty)
  then have "doc (foldl (step True) (step True st a) acts) \<noteq> []"
    by (rule Cons.IH)
  then show ?case by simp
qed

lemma Backspace_sole:
  assumes d: "doc st = [n]" and c: "content_size (content n) = 0"
    and f: "sel_from st = 1" and t: "sel_to st = 1"
  shows "Backspace required st =
     (True,
      \<lparr>doc = (if required then [\<lparr>level = 0, content = []\<rparr>] else []),
         sel_from = (if required then 1 else 0),
         sel_to = (if required then 1 else 0)\<rparr>,
      [])"
proof -
  have r: "resolve (doc st) (sel_from st) = Some (0, 0)"
    using d c f by simp
  have del: "tr_delete required (doc st) 0 = (if required then [\<lparr>level = 0, content = []\<rparr>] else [])"
    using d by (simp add: tr_delete_def)
  show ?thesis
    using r c d f t del
    by (simp add: Backspace_def parentOffset_def Let_def near_after_delete_def pos_before_def)
qed

text \<open>
  Claim C3 says that the merge is a no-op on a document of one node. The handler of
  \<^verbatim>\<open>Backspace\<close> has no test for the number of nodes: on an only node that is empty, at
  level 2, with the cursor in it, it dispatches the deletion and returns true. The
  document after it is not the document before it, whatever the document type asks for:
  one fresh node at level 0 where a node is required, no node where none is.
\<close>

theorem merge_of_sole_node_counterexample:
  "Backspace True \<lparr>doc = [\<lparr>level = 2, content = []\<rparr>], sel_from = 1, sel_to = 1\<rparr>
     = (True, \<lparr>doc = [\<lparr>level = 0, content = []\<rparr>], sel_from = 1, sel_to = 1\<rparr>, [])
   \<and> Backspace False \<lparr>doc = [\<lparr>level = 2, content = []\<rparr>], sel_from = 1, sel_to = 1\<rparr>
     = (True, \<lparr>doc = [], sel_from = 0, sel_to = 0\<rparr>, [])"
  by (simp add: Backspace_def parentOffset_def content_size_def tr_delete_def
      near_after_delete_def pos_before_def)

text \<open>
  Claim C3, amended. \<^verbatim>\<open>Backspace\<close> with the cursor at the start of an empty node applies
  also when that node is the only one: it returns true, dispatches no event and deletes
  the node. The document then holds what the document type requires: one fresh empty
  node at level 0 when it requires a node, nothing when it does not. Under a document
  type that requires a node, no sequence of selections, splits, indents, unindents and
  merges empties a non-empty document.
\<close>

theorem merge_of_sole_node:
  "(doc st = [n] \<and> content_size (content n) = 0 \<and> sel_from st = 1 \<and> sel_to st = 1 \<longrightarrow>
      Backspace required st =
        (True,
         \<lparr>doc = (if required then [\<lparr>level = 0, content = []\<rparr>] else []),
            sel_from = (if required then 1 else 0),
            sel_to = (if required then 1 else 0)\<rparr>,
         []))
   \<and> (doc st \<noteq> [] \<longrightarrow> doc (run True st acts) \<noteq> [])"
  by (simp add: Backspace_sole run_required_nonempty run_def)

theorem merge_of_sole_node_witness:
  "Backspace True \<lparr>doc = [\<lparr>level = 3, content = []\<rparr>], sel_from = 1, sel_to = 1\<rparr>
     = (True, \<lparr>doc = [\<lparr>level = 0, content = []\<rparr>], sel_from = 1, sel_to = 1\<rparr>, [])
   \<and> doc (run True \<lparr>doc = [\<lparr>level = 3, content = []\<rparr>], sel_from = 1, sel_to = 1\<rparr>
        [Call_merge, Call_merge, Call_indent, Call_merge]) \<noteq> []"
  using merge_of_sole_node [of "\<lparr>doc = [\<lparr>level = 3, content = []\<rparr>], sel_from = 1, sel_to = 1\<rparr>"
      "\<lparr>level = 3, content = []\<rparr>" True "[Call_merge, Call_merge, Call_indent, Call_merge]"]
  by (simp add: content_size_def)

section \<open>Import: the lines\<close>

lemma greedy_top:
  assumes "lo \<le> hi"
    and "\<And>n. lo \<le> n \<Longrightarrow> n < hi \<Longrightarrow> f hi = None \<Longrightarrow> f n = None"
  shows "greedy lo hi f = f hi"
  using assms
proof (induction hi)
  case 0
  then show ?case by simp
next
  case (Suc k)
  show ?case
  proof (cases "f (Suc k)")
    case (Some r)
    with Suc.prems(1) show ?thesis by simp
  next
    case None
    show ?thesis
    proof (cases "lo \<le> k")
      case True
      have fk: "f k = None" using Suc.prems(2) [of k] True None by simp
      have "greedy lo k f = f k"
      proof (rule Suc.IH [OF True])
        fix n assume "lo \<le> n" "n < k"
        then show "f n = None" using Suc.prems(2) [of n] None by simp
      qed
      with None fk Suc.prems(1) show ?thesis by simp
    next
      case False
      with Suc.prems(1) have lo: "lo = Suc k" by simp
      have "greedy (Suc k) k f = None" by (cases k) simp_all
      with None lo show ?thesis by simp
    qed
  qed
qed

lemma greedy_below: "hi < lo \<Longrightarrow> greedy lo hi f = None"
  by (cases hi) simp_all

lemma not_isSpace_dash: "\<not> isSpace dash"
  by (simp add: isSpace_def isLineTerminator_def dash_def)

lemma take_takeWhile: "take (length (takeWhile P xs)) xs = takeWhile P xs"
  by (induction xs) simp_all

lemma drop_takeWhile: "drop (length (takeWhile P xs)) xs = dropWhile P xs"
  by (induction xs) simp_all

lemma list_all_drop: "list_all P xs \<Longrightarrow> list_all P (drop n xs)"
  by (auto simp: list_all_iff dest: in_set_dropD)

lemma match_dots:
  "match_seq [Star isDot] (\<lambda>s. s = []) t =
     (if list_all isDot t then Some ([t], []) else None)"
proof (cases "list_all isDot t")
  case True
  then have tw: "takeWhile isDot t = t"
    by (simp add: list_all_iff)
  have k: "length (takeWhile isDot t) = length t"
    by (subst tw) (rule refl)
  have "greedy 0 (length t)
      (\<lambda>n. map_option (\<lambda>(gs, rest). (take n t # gs, rest))
        (match_seq [] (\<lambda>s. s = []) (drop n t))) = Some ([t], [])"
    by (subst greedy_top) simp_all
  with True k show ?thesis by simp
next
  case False
  then have ne: "takeWhile isDot t \<noteq> t"
    by (simp add: list_all_iff)
  have "length (takeWhile isDot t) \<noteq> length t"
  proof
    assume eq: "length (takeWhile isDot t) = length t"
    have "takeWhile isDot t = take (length (takeWhile isDot t)) t"
      by (rule take_takeWhile [symmetric])
    also have "\<dots> = take (length t) t"
      by (simp only: eq)
    also have "\<dots> = t"
      by (rule take_all) (rule order_refl)
    finally have "takeWhile isDot t = t" .
    with ne show False by (rule notE)
  qed
  then have k: "length (takeWhile isDot t) < length t"
    using length_takeWhile_le [of isDot t] by simp
  have "greedy 0 (length (takeWhile isDot t))
      (\<lambda>n. map_option (\<lambda>(gs, rest). (take n t # gs, rest))
        (match_seq [] (\<lambda>s. s = []) (drop n t))) = None"
    using k by (subst greedy_top) simp_all
  with False show ?thesis by simp
qed

lemma match_spaces_dots:
  "match_seq [Plus isSpace, Star isDot] (\<lambda>s. s = []) t =
     (if takeWhile isSpace t \<noteq> [] \<and> list_all isDot (dropWhile isSpace t)
      then Some ([takeWhile isSpace t, dropWhile isSpace t], []) else None)"
proof -
  let ?k = "length (takeWhile isSpace t)"
  let ?f = "\<lambda>n. map_option (\<lambda>(gs, rest). (take n t # gs, rest))
        (match_seq [Star isDot] (\<lambda>s. s = []) (drop n t))"
  have f: "?f n = (if list_all isDot (drop n t) then Some ([take n t, drop n t], []) else None)"
    for n
    by (simp only: match_dots) simp
  show ?thesis
  proof (cases "?k = 0")
    case True
    then show ?thesis by (simp add: greedy_below)
  next
    case False
    then have lo: "1 \<le> ?k" by arith
    have "greedy 1 ?k ?f = ?f ?k"
    proof (rule greedy_top [OF lo])
      fix n assume n: "n < ?k" and none: "?f ?k = None"
      from none have "\<not> list_all isDot (drop ?k t)"
        unfolding f by (simp split: if_splits)
      moreover have "drop ?k t = drop (?k - n) (drop n t)"
        using n by simp
      ultimately have "\<not> list_all isDot (drop n t)"
        using list_all_drop [of isDot "drop n t" "?k - n"] by auto
      then show "?f n = None" unfolding f by simp
    qed
    also have "\<dots> = (if list_all isDot (dropWhile isSpace t)
        then Some ([takeWhile isSpace t, dropWhile isSpace t], []) else None)"
      by (simp add: match_dots take_takeWhile drop_takeWhile del: match_seq.simps)
    finally show ?thesis using False by simp
  qed
qed

lemma match_line_regex:
  "match_seq line_regex (\<lambda>s. s = []) l =
     (if bullet_line l
      then Some ([takeWhile isSpace l, [dash],
                  takeWhile isSpace (tl (dropWhile isSpace l)),
                  dropWhile isSpace (tl (dropWhile isSpace l))], [])
      else None)"
proof -
  let ?k = "length (takeWhile isSpace l)"
  let ?r = "[One (\<lambda>c. c = dash), Plus isSpace, Star isDot]"
  let ?f = "\<lambda>n. map_option (\<lambda>(gs, rest). (take n l # gs, rest))
        (match_seq ?r (\<lambda>s. s = []) (drop n l))"
  have "greedy 0 ?k ?f = ?f ?k"
  proof (rule greedy_top)
    fix n assume n: "n < ?k"
    then have "n < length l"
      using length_takeWhile_le [of isSpace l] by simp
    then have d: "drop n l = l ! n # drop (Suc n) l"
      by (simp add: Cons_nth_drop_Suc)
    from n have "takeWhile isSpace l ! n \<in> set (takeWhile isSpace l)"
      by simp
    then have "isSpace (takeWhile isSpace l ! n)"
      by (auto dest: set_takeWhileD)
    then have "isSpace (l ! n)"
      using takeWhile_nth [OF n] by simp
    then have "l ! n \<noteq> dash" using not_isSpace_dash by auto
    then show "?f n = None" by (simp add: d)
  qed simp
  also have "\<dots> = map_option (\<lambda>(gs, rest). (takeWhile isSpace l # gs, rest))
      (match_seq ?r (\<lambda>s. s = []) (dropWhile isSpace l))"
    by (simp only: take_takeWhile drop_takeWhile)
  also have "\<dots> = (if bullet_line l
      then Some ([takeWhile isSpace l, [dash],
                  takeWhile isSpace (tl (dropWhile isSpace l)),
                  dropWhile isSpace (tl (dropWhile isSpace l))], [])
      else None)"
  proof (cases "dropWhile isSpace l")
    case Nil
    show ?thesis
      unfolding bullet_line_def Nil by simp
  next
    case (Cons c r)
    show ?thesis
      unfolding bullet_line_def Cons
      by (cases r) (simp_all add: match_spaces_dots del: match_seq.simps(4))
  qed
  finally show ?thesis by (simp add: line_regex_def)
qed

lemma match_line_eq:
  "match_line l =
     (if bullet_line l
      then Some (takeWhile isSpace l, dropWhile isSpace (tl (dropWhile isSpace l)))
      else None)"
  by (simp add: match_line_def match_line_regex numeral_3_eq_3)

lemma foldl_add_line:
  "foldl add_line acc ls = acc @ map node_of_line (filter bullet_line ls)"
  by (induction ls arbitrary: acc) (simp_all add: add_line_def match_line_eq node_of_line_def)

lemma bullet_line_iff:
  "bullet_line l \<longleftrightarrow>
     (\<exists>w s t. l = w @ [dash] @ s @ t \<and> list_all isSpace w \<and> s \<noteq> [] \<and> list_all isSpace s
        \<and> list_all isDot t)"
proof
  assume b: "bullet_line l"
  then obtain r where r: "dropWhile isSpace l = dash # r"
    and h: "takeWhile isSpace r \<noteq> []" and d: "list_all isDot (dropWhile isSpace r)"
    by (auto simp: bullet_line_def split: list.splits)
  have "l = takeWhile isSpace l @ [dash] @ takeWhile isSpace r @ dropWhile isSpace r"
    by (simp add: r [symmetric])
  moreover have "list_all isSpace (takeWhile isSpace l)" "list_all isSpace (takeWhile isSpace r)"
    by (auto simp: list_all_iff dest: set_takeWhileD)
  ultimately show "\<exists>w s t. l = w @ [dash] @ s @ t \<and> list_all isSpace w \<and> s \<noteq> []
      \<and> list_all isSpace s \<and> list_all isDot t"
    using h d by blast
next
  assume "\<exists>w s t. l = w @ [dash] @ s @ t \<and> list_all isSpace w \<and> s \<noteq> [] \<and> list_all isSpace s
      \<and> list_all isDot t"
  then obtain w s t where l: "l = w @ [dash] @ s @ t" and w: "list_all isSpace w"
    and s: "s \<noteq> []" "list_all isSpace s" and t: "list_all isDot t"
    by blast
  from w have dw: "dropWhile isSpace l = dash # s @ t"
    using not_isSpace_dash by (simp add: l list_all_iff dropWhile_append3)
  from s obtain c s' where c: "s = c # s'" "isSpace c" by (cases s) auto
  from s(2) have "dropWhile isSpace (s @ t) = dropWhile isSpace t"
    by (simp add: list_all_iff dropWhile_append)
  moreover have "list_all isDot (dropWhile isSpace t)"
    using t by (auto simp: list_all_iff dest: set_dropWhileD)
  ultimately show "bullet_line l"
    using dw c by (simp add: bullet_line_def)
qed

text \<open>
  Claim C8. \<^verbatim>\<open>fromMarkdown\<close> makes one node of each line that matches the bullet pattern,
  in order, with level the length of the leading whitespace divided by two, rounded
  down; it drops every other line; when no line matches the result is one node at level
  0 without content. \<open>bullet_line\<close> holds exactly of the strings of the form whitespace,
  dash, whitespace (at least one), anything without a line terminator.
\<close>

theorem fromMarkdown_lines:
  "fromMarkdown md =
     (let nodes = map node_of_line (filter bullet_line (split_on newline [] md))
      in if nodes = [] then [outlineNode 0 []] else nodes)
   \<and> level_of (node_of_line l) = length (takeWhile isSpace l) div 2
   \<and> node_attrs (node_of_line l) = Some (Some (length (takeWhile isSpace l) div 2))
   \<and> (bullet_line l \<longleftrightarrow>
        (\<exists>w s t. l = w @ [dash] @ s @ t \<and> list_all isSpace w \<and> s \<noteq> []
           \<and> list_all isSpace s \<and> list_all isDot t))"
  using bullet_line_iff [of l]
  by (simp add: fromMarkdown_def foldl_add_line Let_def node_of_line_def level_of_def
      outlineNode_def)

theorem fromMarkdown_lines_witness:
  "fromMarkdown (lit ''- A\<newline>   - B\<newline>junk\<newline>-x'') =
     map node_of_line [lit ''- A'', lit ''   - B'']
   \<and> map level_of (fromMarkdown (lit ''- A\<newline>   - B\<newline>junk\<newline>-x'')) = [0, 1]
   \<and> fromMarkdown (lit ''junk\<newline>-x'') = [outlineNode 0 []]"
proof -
  have f: "filter bullet_line (split_on newline [] (lit ''- A\<newline>   - B\<newline>junk\<newline>-x'')) =
      [lit ''- A'', lit ''   - B'']"
    by code_simp
  have g: "filter bullet_line (split_on newline [] (lit ''junk\<newline>-x'')) = []"
    by code_simp
  have l: "map level_of (map node_of_line [lit ''- A'', lit ''   - B'']) = [0, 1]"
    by code_simp
  show ?thesis
    using fromMarkdown_lines [of "lit ''- A\<newline>   - B\<newline>junk\<newline>-x''" "[]"]
      fromMarkdown_lines [of "lit ''junk\<newline>-x''" "[]"] f g l
    by (simp add: Let_def)
qed

section \<open>Import: the marks\<close>

lemma greedy_hit:
  assumes "lo \<le> hi" and "f hi = Some r"
  shows "greedy lo hi f = Some r"
  using assms by (cases hi) simp_all

lemma greedy_SomeD:
  "greedy lo hi f = Some r \<Longrightarrow> \<exists>n. lo \<le> n \<and> n \<le> hi \<and> f n = Some r"
proof (induction hi)
  case 0
  then show ?case by (auto split: if_splits)
next
  case (Suc k)
  show ?case
  proof (cases "f (Suc k)")
    case (Some a)
    with Suc.prems have "lo \<le> Suc k" and "f (Suc k) = Some r"
      by (auto split: if_splits)
    then show ?thesis by (intro exI [of _ "Suc k"]) simp
  next
    case None
    with Suc.prems have "greedy lo k f = Some r" and "lo \<le> Suc k"
      by (auto split: if_splits)
    then obtain n where "lo \<le> n" "n \<le> k" "f n = Some r"
      using Suc.IH by blast
    then show ?thesis by (intro exI [of _ n]) simp
  qed
qed

lemma match_seq_concat:
  "match_seq items fin s = Some (gs, rest) \<Longrightarrow> s = concat gs @ rest"
proof (induction items fin s arbitrary: gs rest rule: match_seq.induct)
  case (1 fin s)
  then show ?case by (simp split: if_splits)
next
  case (2 p r fin s)
  then show ?case
    by (cases s) (auto split: if_splits)
next
  case (3 p r fin s)
  from "3.prems" obtain n where
    "map_option (\<lambda>(gs, rest). (take n s # gs, rest)) (match_seq r fin (drop n s)) = Some (gs, rest)"
    by (auto dest: greedy_SomeD)
  then obtain gs' where m: "match_seq r fin (drop n s) = Some (gs', rest)" and g: "gs = take n s # gs'"
    by auto
  from m have "drop n s = concat gs' @ rest" by (rule "3.IH")
  then have "take n s @ drop n s = take n s @ concat gs' @ rest" by simp
  then show ?case by (simp add: g)
next
  case (4 p r fin s)
  from "4.prems" obtain n where
    "map_option (\<lambda>(gs, rest). (take n s # gs, rest)) (match_seq r fin (drop n s)) = Some (gs, rest)"
    by (auto dest: greedy_SomeD)
  then obtain gs' where m: "match_seq r fin (drop n s) = Some (gs', rest)" and g: "gs = take n s # gs'"
    by auto
  from m have "drop n s = concat gs' @ rest" by (rule "4.IH")
  then have "take n s @ drop n s = take n s @ concat gs' @ rest" by simp
  then show ?case by (simp add: g)
qed

lemma match_seq_One_shorter:
  assumes "match_seq (One p # r) fin s = Some (gs, rest)"
  shows "length rest < length s"
proof (cases s)
  case Nil
  with assms show ?thesis by simp
next
  case (Cons c s')
  with assms obtain gs' where "match_seq r fin s' = Some (gs', rest)"
    by (auto split: if_splits)
  then have "s' = concat gs' @ rest" by (rule match_seq_concat)
  then have "length s' = length (concat gs') + length rest" by (simp only: length_append [symmetric])
  with Cons show ?thesis by simp
qed

lemma match_alt_mark_regex:
  assumes "match_alt mark_regex s = Some (m, rest)"
  shows "length rest < length s"
proof -
  from assms obtain p r gs where "match_seq (One p # r) (\<lambda>_. True) s = Some (gs, rest)"
    unfolding mark_regex_def by (auto simp del: match_seq.simps split: option.splits)
  then show ?thesis by (rule match_seq_One_shorter)
qed

lemma lit_marks:
  "lit ''**'' = [star, star]" "lit ''*'' = [star]" "lit ''`'' = [tick]"
  "lit ''- '' = [dash, blank]" "lit ''  '' = [blank, blank]"
  by (simp_all add: lit_simps star_def tick_def dash_def blank_def)

lemma star_neq_tick: "star \<noteq> tick" "tick \<noteq> star"
  by (simp_all add: star_def tick_def)

lemma match_plus_exact:
  assumes t: "t \<noteq> []" and p: "list_all p t" and c: "\<not> p c"
    and r: "match_seq r fin (c # u) = Some x"
  shows "match_seq (Plus p # r) fin (t @ c # u) = Some (t # fst x, snd x)"
proof -
  have tw: "takeWhile p (t @ c # u) = t"
    using p c by (simp add: list_all_iff takeWhile_append2)
  let ?f = "\<lambda>n. map_option (\<lambda>(gs, rest). (take n (t @ c # u) # gs, rest))
      (match_seq r fin (drop n (t @ c # u)))"
  have "?f (length t) = Some (t # fst x, snd x)"
    using r by (simp add: case_prod_beta)
  moreover have "1 \<le> length t"
    using t by (cases t) simp_all
  ultimately have "greedy 1 (length t) ?f = Some (t # fst x, snd x)"
    by (rule greedy_hit [rotated])
  then show ?thesis
    by (simp only: match_seq.simps tw)
qed

lemma clean_textD:
  assumes "clean_text t"
  shows "t \<noteq> []" and "list_all (\<lambda>c. c \<noteq> star) t" and "list_all (\<lambda>c. c \<noteq> tick) t"
    and "list_all plain_char t"
  using assms by (auto simp: clean_text_def plain_char_def list_all_iff)

lemma match_none: "c \<noteq> star \<Longrightarrow> c \<noteq> tick \<Longrightarrow> match_alt mark_regex (c # s) = None"
  by (simp add: mark_regex_def)

lemma match_bold:
  assumes "clean_text t"
  shows "match_alt mark_regex (wrap t Bold @ u) = Some (wrap t Bold, u)"
proof -
  let ?st = "\<lambda>c. c = star" and ?ns = "\<lambda>c. c \<noteq> star"
  have e: "match_seq [One ?st, One ?st] (\<lambda>_. True) (star # star # u) = Some ([[star], [star]], u)"
    by simp
  have "match_seq [Plus ?ns, One ?st, One ?st] (\<lambda>_. True) (t @ star # star # u)
      = Some ([t, [star], [star]], u)"
    using match_plus_exact [OF clean_textD(1,2) [OF assms] _ e] by simp
  then have "match_seq [One ?st, One ?st, Plus ?ns, One ?st, One ?st] (\<lambda>_. True)
      (star # star # t @ star # star # u) = Some ([[star], [star], t, [star], [star]], u)"
    by (simp del: match_seq.simps(4))
  then show ?thesis
    by (simp add: mark_regex_def lit_marks del: match_seq.simps)
qed

lemma match_italic:
  assumes "clean_text t"
  shows "match_alt mark_regex (wrap t Italic @ u) = Some (wrap t Italic, u)"
proof -
  let ?st = "\<lambda>c. c = star" and ?ns = "\<lambda>c. c \<noteq> star"
  from assms obtain a t' where t: "t = a # t'" and a: "a \<noteq> star"
    by (cases t) (auto simp: clean_text_def plain_char_def)
  have one: "match_seq [One ?st, One ?st, Plus ?ns, One ?st, One ?st] (\<lambda>_. True)
      (star # t @ star # u) = None"
    using a by (simp add: t del: match_seq.simps(4))
  have e: "match_seq [One ?st] (\<lambda>_. True) (star # u) = Some ([[star]], u)"
    by simp
  have "match_seq [Plus ?ns, One ?st] (\<lambda>_. True) (t @ star # u) = Some ([t, [star]], u)"
    using match_plus_exact [OF clean_textD(1,2) [OF assms] _ e] by simp
  then have two: "match_seq [One ?st, Plus ?ns, One ?st] (\<lambda>_. True)
      (star # t @ star # u) = Some ([[star], t, [star]], u)"
    by (simp del: match_seq.simps(4))
  show ?thesis
    by (simp add: mark_regex_def lit_marks one two del: match_seq.simps)
qed

lemma match_code:
  assumes "clean_text t"
  shows "match_alt mark_regex (wrap t Code @ u) = Some (wrap t Code, u)"
proof -
  let ?st = "\<lambda>c. c = star" and ?ns = "\<lambda>c. c \<noteq> star"
  let ?ti = "\<lambda>c. c = tick" and ?nt = "\<lambda>c. c \<noteq> tick"
  have one: "match_seq [One ?st, One ?st, Plus ?ns, One ?st, One ?st] (\<lambda>_. True)
      (tick # t @ tick # u) = None"
    by (simp add: star_neq_tick del: match_seq.simps(4))
  have two: "match_seq [One ?st, Plus ?ns, One ?st] (\<lambda>_. True) (tick # t @ tick # u) = None"
    by (simp add: star_neq_tick del: match_seq.simps(4))
  have e: "match_seq [One ?ti] (\<lambda>_. True) (tick # u) = Some ([[tick]], u)"
    by simp
  have "match_seq [Plus ?nt, One ?ti] (\<lambda>_. True) (t @ tick # u) = Some ([t, [tick]], u)"
    using match_plus_exact [OF clean_textD(1,3) [OF assms] _ e] by simp
  then have three: "match_seq [One ?ti, Plus ?nt, One ?ti] (\<lambda>_. True)
      (tick # t @ tick # u) = Some ([[tick], t, [tick]], u)"
    by (simp del: match_seq.simps(4))
  show ?thesis
    by (simp add: mark_regex_def lit_marks one two three del: match_seq.simps)
qed

lemma split_loop_match:
  assumes "match_alt mark_regex s = Some (m, rest)"
  shows "split_loop pend s = pend # m # split_loop [] rest"
proof (cases s)
  case Nil
  with assms show ?thesis by (simp add: mark_regex_def)
next
  case (Cons c cs)
  from assms have "length rest < length s" by (rule match_alt_mark_regex)
  with assms Cons show ?thesis by simp
qed

lemma split_loop_plain:
  "list_all plain_char t \<Longrightarrow> split_loop pend (t @ u) = split_loop (pend @ t) u"
proof (induction t arbitrary: pend)
  case Nil
  show ?case by simp
next
  case (Cons c t)
  then have "match_alt mark_regex (c # t @ u) = None"
    by (simp add: match_none plain_char_def)
  then have "split_loop pend ((c # t) @ u) = split_loop (pend @ [c]) (t @ u)"
    by simp
  also have "\<dots> = split_loop ((pend @ [c]) @ t) u"
    using Cons.prems by (intro Cons.IH) simp
  finally show ?case by simp
qed

lemma add_segment_plain:
  assumes "clean_text p"
  shows "add_segment acc p = acc @ [Json_text p None]"
proof -
  from assms obtain a p' where "p = a # p'" and "a \<noteq> star" and "a \<noteq> tick"
    by (cases p) (auto simp: clean_text_def plain_char_def)
  then show ?thesis
    by (simp add: add_segment_def startsWith_def lit_marks)
qed

lemma add_segment_bold:
  shows "add_segment acc (wrap t Bold) = acc @ [Json_text t (Some [Bold])]"
  by (simp add: add_segment_def startsWith_def endsWith_def slice_def lit_marks)

lemma add_segment_italic:
  assumes "clean_text t"
  shows "add_segment acc (wrap t Italic) = acc @ [Json_text t (Some [Italic])]"
proof -
  from assms obtain a t' where "t = a # t'" and "a \<noteq> star"
    by (cases t) (auto simp: clean_text_def plain_char_def)
  then show ?thesis
    by (simp add: add_segment_def startsWith_def endsWith_def slice_def lit_marks)
qed

lemma add_segment_code:
  shows "add_segment acc (wrap t Code) = acc @ [Json_text t (Some [Code])]"
  by (simp add: add_segment_def startsWith_def endsWith_def slice_def lit_marks star_neq_tick)

lemma render_Cons: "foldl add_child [] (x # c) = add_child [] x @ foldl add_child [] c"
  using foldl_add_child [of "add_child [] x" c] by simp

lemma no_adjacent_plain_tail: "no_adjacent_plain (x # c) \<Longrightarrow> no_adjacent_plain c"
  by (cases c) simp_all

lemma add_segment_pend:
  assumes "pend \<noteq> [] \<longrightarrow> clean_text pend"
  shows "add_segment acc pend = acc @ (if pend = [] then [] else [Json_text pend None])"
proof (cases "pend = []")
  case True
  then show ?thesis by (simp add: add_segment_def)
next
  case False
  with assms have "clean_text pend" by simp
  then have "add_segment acc pend = acc @ [Json_text pend None]" by (rule add_segment_plain)
  with False show ?thesis by simp
qed

lemma supported_runE:
  assumes "supported_run x"
  obtains t where "x = Json_text t None" and "clean_text t"
  | t m where "x = Json_text t (Some [m])" and "clean_text t"
      and "m = Bold \<or> m = Italic \<or> m = Code"
  using assms by (cases x) auto

lemma segments_of_runs:
  assumes "list_all supported_run c" and "no_adjacent_plain c"
    and "pend \<noteq> [] \<longrightarrow> clean_text pend \<and> (\<forall>x c'. c = x # c' \<longrightarrow> \<not> is_plain x)"
  shows "foldl add_segment acc (split_loop pend (foldl add_child [] c)) =
     acc @ (if pend = [] then [] else [Json_text pend None]) @ c"
  using assms
proof (induction c arbitrary: pend acc)
  case Nil
  then have "pend \<noteq> [] \<longrightarrow> clean_text pend" by simp
  then show ?case by (simp add: add_segment_pend)
next
  case (Cons x c)
  from Cons.prems(1) have sx: "supported_run x" and sc: "list_all supported_run c"
    by simp_all
  from Cons.prems(2) have na: "no_adjacent_plain c" by (rule no_adjacent_plain_tail)
  from sx show ?case
  proof (cases rule: supported_runE)
    case (1 t)
    with Cons.prems(3) have pend: "pend = []" by auto
    have next_ok: "t \<noteq> [] \<longrightarrow> clean_text t \<and> (\<forall>y c'. c = y # c' \<longrightarrow> \<not> is_plain y)"
      using 1 Cons.prems(2) by (cases c) auto
    have r: "foldl add_child [] (x # c) = t @ foldl add_child [] c"
      using render_Cons [of x c] 1 by simp
    have "split_loop [] (foldl add_child [] (x # c)) = split_loop t (foldl add_child [] c)"
      unfolding r using split_loop_plain [of t "[]" "foldl add_child [] c"] 1
      by (simp add: clean_textD)
    moreover have "foldl add_segment acc (split_loop t (foldl add_child [] c)) =
        acc @ (if t = [] then [] else [Json_text t None]) @ c"
      using sc na next_ok by (rule Cons.IH)
    ultimately show ?thesis
      using pend 1 by (simp add: clean_textD)
  next
    case (2 t m)
    let ?w = "wrap t m"
    have w: "match_alt mark_regex (?w @ foldl add_child [] c) = Some (?w, foldl add_child [] c)"
      using 2(3) match_bold [OF 2(2), of "foldl add_child [] c"]
        match_italic [OF 2(2), of "foldl add_child [] c"]
        match_code [OF 2(2), of "foldl add_child [] c"]
      by auto
    have k: "add_segment a ?w = a @ [Json_text t (Some [m])]" for a
      using 2(3) add_segment_bold [of a t] add_segment_italic [OF 2(2), of a]
        add_segment_code [of a t]
      by auto
    from Cons.prems(3) have p: "pend \<noteq> [] \<longrightarrow> clean_text pend" by simp
    have r: "foldl add_child [] (x # c) = ?w @ foldl add_child [] c"
      using render_Cons [of x c] 2(1) by simp
    have "split_loop pend (foldl add_child [] (x # c)) =
        pend # ?w # split_loop [] (foldl add_child [] c)"
      unfolding r by (rule split_loop_match [OF w])
    moreover have "foldl add_segment (add_segment (add_segment acc pend) ?w)
          (split_loop [] (foldl add_child [] c)) =
        add_segment (add_segment acc pend) ?w
          @ (if [] = ([]::jsstring) then [] else [Json_text [] None]) @ c"
      using sc na by (intro Cons.IH) simp_all
    ultimately show ?thesis
      using 2(1) by (simp add: k add_segment_pend [OF p])
  qed
qed

lemma render_nonempty:
  assumes "supported_run x"
  shows "foldl add_child [] (x # c) \<noteq> []"
  using assms
proof (cases rule: supported_runE)
  case (1 t)
  then have "t \<noteq> []" by (simp add: clean_text_def)
  then show ?thesis unfolding render_Cons 1(1) by simp
next
  case (2 t m)
  from 2(3) have "wrap t m \<noteq> []" by (auto simp: lit_marks)
  then show ?thesis unfolding render_Cons 2(1) by simp
qed

lemma parse_render:
  assumes "list_all supported_run c" and "no_adjacent_plain c"
  shows "parseTextWithMarks (foldl add_child [] c) = c"
proof (cases c)
  case Nil
  then show ?thesis by (simp add: parseTextWithMarks_def)
next
  case (Cons x c')
  from Cons assms(1) have "supported_run x" by simp
  then have "foldl add_child [] (x # c') \<noteq> []" by (rule render_nonempty)
  then have "foldl add_child [] c \<noteq> []" unfolding Cons .
  moreover have "foldl add_segment [] (split_loop [] (foldl add_child [] c)) =
      [] @ (if [] = ([]::jsstring) then [] else [Json_text [] None]) @ c"
    using assms by (intro segments_of_runs) simp_all
  ultimately show ?thesis by (simp add: parseTextWithMarks_def)
qed

section \<open>The round trip\<close>

lemma repeat_blanks: "repeat (lit ''  '') k = replicate (2 * k) blank"
  by (induction k) (simp_all add: repeat_def lit_marks)

lemma isSpace_blank: "isSpace blank"
  by (simp add: isSpace_def blank_def)

lemma isDot_marks: "isDot star" "isDot tick" "isDot dash" "isDot blank"
  by (simp_all add: isDot_def isLineTerminator_def star_def tick_def dash_def blank_def)

lemma not_isDot_newline: "\<not> isDot newline"
  by (simp add: isDot_def isLineTerminator_def newline_def)

lemma not_isSpace_marks: "\<not> isSpace star" "\<not> isSpace tick"
  by (simp_all add: isSpace_def isLineTerminator_def star_def tick_def)

lemma isDot_clean: "clean_text t \<Longrightarrow> list_all isDot t"
  by (auto simp: clean_text_def plain_char_def isDot_def list_all_iff)

lemma isDot_run:
  assumes "supported_run x"
  shows "list_all isDot (add_child [] x)"
  using assms
proof (cases rule: supported_runE)
  case (1 t)
  then show ?thesis by (simp add: isDot_clean)
next
  case (2 t m)
  from 2(2) have "list_all isDot t" by (rule isDot_clean)
  with 2(1,3) show ?thesis by (auto simp: lit_marks isDot_marks)
qed

lemma isDot_render:
  "list_all supported_run c \<Longrightarrow> list_all isDot (foldl add_child [] c)"
proof (induction c)
  case Nil
  show ?case by simp
next
  case (Cons x c)
  from Cons.prems have "list_all isDot (add_child [] x)" by (simp add: isDot_run)
  moreover from Cons have "list_all isDot (foldl add_child [] c)" by simp
  ultimately show ?case unfolding render_Cons by simp
qed

lemma render_starts_clear:
  assumes "list_all supported_run c" and "starts_clear c"
  shows "dropWhile isSpace (foldl add_child [] c) = foldl add_child [] c"
proof (cases c)
  case Nil
  then show ?thesis by simp
next
  case (Cons x c')
  from assms(1) Cons have "supported_run x" by simp
  then have "\<exists>b r. add_child [] x = b # r \<and> \<not> isSpace b"
  proof (cases rule: supported_runE)
    case (1 t)
    then obtain a t' where t: "t = a # t'" by (cases t) (auto simp: clean_text_def)
    with assms(2) Cons 1 show ?thesis by simp
  next
    case (2 t m)
    from 2(3) show ?thesis unfolding 2(1)
      by (auto simp: lit_marks not_isSpace_marks)
  qed
  then obtain b r where "add_child [] x = b # r" and "\<not> isSpace b"
    by blast
  then show ?thesis unfolding Cons render_Cons by simp
qed

lemma line_of_shape:
  "line_of n = replicate (2 * level_of n) blank @ dash # blank # nodeToText n"
  by (simp add: line_of_def repeat_blanks lit_marks(4))

lemma takeWhile_blanks:
  "takeWhile isSpace (replicate k blank @ dash # r) = replicate k blank"
  by (induction k) (simp_all add: isSpace_blank not_isSpace_dash)

lemma dropWhile_blanks:
  "dropWhile isSpace (replicate k blank @ dash # r) = dash # r"
  by (induction k) (simp_all add: isSpace_blank not_isSpace_dash)

lemma supported_nodeD:
  assumes "supported_node n"
  obtains l c where "n = outlineNode l c" and "list_all supported_run c"
    and "no_adjacent_plain c" and "starts_clear c"
proof -
  from assms obtain l where a: "node_attrs n = Some (Some l)"
    by (auto simp: supported_node_def split: option.splits)
  from assms obtain c where c: "node_content n = Some c" and s: "supported_content c"
    by (auto simp: supported_node_def split: option.splits)
  have "n = \<lparr>node_attrs = node_attrs n, node_content = node_content n\<rparr>" by simp
  then have "n = outlineNode l c" by (simp only: a c outlineNode_def)
  with s that show ?thesis by (simp add: supported_content_def)
qed

lemma node_of_line_of:
  assumes "supported_node n"
  shows "bullet_line (line_of n)" and "node_of_line (line_of n) = n"
proof -
  from assms obtain l c where n: "n = outlineNode l c" and c: "list_all supported_run c"
    "no_adjacent_plain c" "starts_clear c"
    by (rule supported_nodeD)
  let ?text = "nodeToText n"
  have tx: "?text = foldl add_child [] c"
    by (simp add: n nodeToText_outlineNode)
  have dots: "list_all isDot ?text"
    using c(1) by (simp add: tx isDot_render)
  have start: "dropWhile isSpace ?text = ?text"
    using c(1,3) by (simp add: tx render_starts_clear)
  have parse: "parseTextWithMarks ?text = c"
    using c(1,2) by (simp add: tx parse_render)
  have lv: "level_of n = l"
    by (simp add: n level_of_outlineNode)
  have dw: "dropWhile isSpace (line_of n) = dash # blank # ?text"
    by (simp only: line_of_shape dropWhile_blanks)
  have tw: "takeWhile isSpace (line_of n) = replicate (2 * level_of n) blank"
    by (simp only: line_of_shape takeWhile_blanks)
  show "bullet_line (line_of n)"
    unfolding bullet_line_def dw using dots start by (simp add: isSpace_blank)
  have "node_of_line (line_of n) = outlineNode l c"
    unfolding node_of_line_def dw tw using start parse lv by (simp add: isSpace_blank)
  then show "node_of_line (line_of n) = n" by (simp only: n)
qed

lemma line_of_dots:
  assumes "supported_node n"
  shows "newline \<notin> set (line_of n)"
proof -
  from assms obtain l c where n: "n = outlineNode l c" and c: "list_all supported_run c"
    by (rule supported_nodeD)
  then have "list_all isDot (nodeToText n)"
    by (simp add: nodeToText_outlineNode isDot_render)
  then have "list_all isDot (line_of n)"
    by (auto simp: line_of_shape isDot_marks list_all_iff)
  then show ?thesis
    using not_isDot_newline by (auto simp: list_all_iff)
qed

lemma split_on_append:
  "sep \<notin> set l \<Longrightarrow> split_on sep cur (l @ r) = split_on sep (cur @ l) r"
  by (induction l arbitrary: cur) auto

lemma split_on_join:
  "\<forall>l\<in>set (x # ls). sep \<notin> set l \<Longrightarrow>
     split_on sep cur (join [sep] (x # ls)) = (cur @ x) # ls"
proof (induction ls arbitrary: x cur)
  case Nil
  then have "split_on sep cur (x @ []) = split_on sep (cur @ x) []"
    by (intro split_on_append) simp
  then show ?case by simp
next
  case (Cons y ls)
  from Cons.prems have x: "sep \<notin> set x" by simp
  from Cons.prems have "split_on sep [] (join [sep] (y # ls)) = ([] @ y) # ls"
    by (intro Cons.IH) simp
  moreover have "split_on sep cur (x @ sep # join [sep] (y # ls)) =
      split_on sep (cur @ x) (sep # join [sep] (y # ls))"
    using x by (rule split_on_append)
  ultimately show ?case by simp
qed

lemma toMarkdown_line_of: "toMarkdown d = join [newline] (map line_of d)"
  by (simp add: toMarkdown_def foldl_push_line line_of_def [abs_def])

text \<open>
  Claim C1, amended. For every supported document (at least one node; every node with
  the keys \<^verbatim>\<open>attrs\<close>, holding a level, and \<^verbatim>\<open>content\<close>, holding an array that may be empty;
  every inline child a text that is not empty and has no asterisk, backtick or line
  terminator, written without the key \<^verbatim>\<open>marks\<close> or with a \<^verbatim>\<open>marks\<close> array of exactly one of
  bold, italic, code; no two neighbouring runs both without mark; no first run without
  mark that begins with whitespace; any levels), importing the exported markdown gives
  the document back. The conditions are sufficient, not necessary.
\<close>

theorem roundtrip_supported:
  assumes "supported d"
  shows "fromMarkdown (toMarkdown d) = d"
proof -
  from assms have ne: "d \<noteq> []" and all: "\<forall>n\<in>set d. supported_node n"
    by (simp_all add: supported_def list_all_iff)
  from ne obtain n ns where d: "d = n # ns" by (cases d) auto
  have "\<forall>l\<in>set (line_of n # map line_of ns). newline \<notin> set l"
    using all d by (auto simp: line_of_dots)
  then have "split_on newline [] (join [newline] (line_of n # map line_of ns)) =
      ([] @ line_of n) # map line_of ns"
    by (rule split_on_join)
  then have lines: "split_on newline [] (toMarkdown d) = map line_of d"
    by (simp add: toMarkdown_line_of d)
  have "filter bullet_line (map line_of d) = map line_of d"
    using all by (simp add: filter_map node_of_line_of(1) comp_def)
  moreover have "map node_of_line (map line_of d) = d"
    using all by (simp add: map_idI node_of_line_of(2))
  ultimately have "foldl add_line [] (map line_of d) = d"
    by (simp add: foldl_add_line)
  with lines ne show ?thesis
    by (simp add: fromMarkdown_def)
qed

text \<open>
  Claim C1 promises the round trip for every document whose runs carry at most one mark.
  It fails for a run whose one mark is a link (the export drops the mark), for a run
  without mark whose text reads as markdown (it comes back italic), for a first run
  that begins with a blank (the blank is taken for the whitespace behind the dash), for
  a text with a carriage return (the line no longer matches the bullet pattern and is
  dropped), for two neighbouring runs without mark (they come back as one), for an
  empty node written without the key \<^verbatim>\<open>content\<close>, as the editor's JSON writes it (it
  comes back with an empty array), and for a text with an empty \<^verbatim>\<open>marks\<close> array (it comes
  back without the key).
\<close>

theorem roundtrip_counterexample:
  "fromMarkdown (toMarkdown [outlineNode 0 [Json_text (lit ''a'') (Some [Link (lit ''u'')])]])
     = [outlineNode 0 [Json_text (lit ''a'') None]]
   \<and> fromMarkdown (toMarkdown [outlineNode 0 [Json_text (lit ''a'') (Some [Link (lit ''u'')])]])
     \<noteq> [outlineNode 0 [Json_text (lit ''a'') (Some [Link (lit ''u'')])]]
   \<and> fromMarkdown (toMarkdown [outlineNode 0 [Json_text (lit ''*a*'') None]])
     = [outlineNode 0 [Json_text (lit ''a'') (Some [Italic])]]
   \<and> fromMarkdown (toMarkdown [outlineNode 0 [Json_text (lit '' a'') None]])
     = [outlineNode 0 [Json_text (lit ''a'') None]]
   \<and> fromMarkdown (toMarkdown
        [outlineNode 1 [Json_text (lit ''a'' @ [13] @ lit ''b'') (Some [Bold])]])
     = [outlineNode 0 []]
   \<and> fromMarkdown (toMarkdown
       [outlineNode 0 [Json_text (lit ''a'') None, Json_text (lit ''b'') None]])
     = [outlineNode 0 [Json_text (lit ''ab'') None]]
   \<and> fromMarkdown (toMarkdown [\<lparr>node_attrs = Some (Some 1), node_content = None\<rparr>])
     = [\<lparr>node_attrs = Some (Some 1), node_content = Some []\<rparr>]
   \<and> fromMarkdown (toMarkdown [\<lparr>node_attrs = Some (Some 1), node_content = None\<rparr>])
     \<noteq> [\<lparr>node_attrs = Some (Some 1), node_content = None\<rparr>]
   \<and> fromMarkdown (toMarkdown [outlineNode 0 [Json_text (lit ''a'') (Some [])]])
     = [outlineNode 0 [Json_text (lit ''a'') None]]"
  by code_simp

theorem roundtrip_supported_witness:
  "supported
     [outlineNode 0 [Json_text (lit ''A'') None, Json_text (lit ''b'') (Some [Bold]),
                     Json_text (lit ''c'') (Some [Italic]), Json_text (lit '' d'') None],
      outlineNode 2 [Json_text (lit ''x y'') (Some [Code])],
      outlineNode 1 []]
   \<and> fromMarkdown (toMarkdown
       [outlineNode 0 [Json_text (lit ''A'') None, Json_text (lit ''b'') (Some [Bold]),
                       Json_text (lit ''c'') (Some [Italic]), Json_text (lit '' d'') None],
        outlineNode 2 [Json_text (lit ''x y'') (Some [Code])],
        outlineNode 1 []])
     = [outlineNode 0 [Json_text (lit ''A'') None, Json_text (lit ''b'') (Some [Bold]),
                       Json_text (lit ''c'') (Some [Italic]), Json_text (lit '' d'') None],
        outlineNode 2 [Json_text (lit ''x y'') (Some [Code])],
        outlineNode 1 []]"
proof -
  have s: "supported
     [outlineNode 0 [Json_text (lit ''A'') None, Json_text (lit ''b'') (Some [Bold]),
                     Json_text (lit ''c'') (Some [Italic]), Json_text (lit '' d'') None],
      outlineNode 2 [Json_text (lit ''x y'') (Some [Code])],
      outlineNode 1 []]"
    by code_simp
  show ?thesis
    using s roundtrip_supported [OF s] by (intro conjI)
qed

end
